theory Spec2Isabelle
  imports Main "HOL-Library.AList"
begin

section \<open>Version store (src/storage.js)\<close>

text \<open>
  The store keeps its metadata in one object \<open>this.db\<close> and the script bodies in
  separate files. The embedding passes both along explicitly:

  \<^item> \<open>db.targets\<close> and \<open>db.scripts\<close> are JavaScript objects used as dictionaries; they
    are association lists in insertion order (the order \<open>for ... in\<close> enumerates).
    A script key is the string \<open>targetId:identifier\<close>; the number prints as digits only,
    so the string determines the pair and the key is modelled as the pair.
  \<^item> \<open>db.scriptVersions\<close> is keyed by the script id printed as a string; the key is
    modelled as the number.
  \<^item> timestamps are the ISO strings of \<open>new Date().toISOString()\<close>; they are modelled
    by the millisecond count that \<open>new Date(s)\<close> reads back from them, and every
    operation receives the clock reading \<open>now\<close> as an argument.
  \<^item> the file system is a partial map from paths to contents, and writing or deleting a
    file succeeds; \<open>saveDb\<close> rewrites the metadata file from \<open>this.db\<close> and leaves
    \<open>this.db\<close> itself unchanged, so it has no effect on the modelled state. The record
    of the state also carries \<open>this.scriptsDir\<close>.
  \<^item> ids are numbers, as the counters hand them out.
  \<^item> \<open>hashContent\<close> is SHA-256 of the platform's crypto module; it is a parameter.
\<close>

record target =
  t_id :: nat
  t_domain :: string
  t_createdAt :: nat
  t_lastScan :: "nat option"

record scan =
  sc_id :: nat
  sc_targetId :: nat
  sc_url :: string
  sc_timestamp :: nat
  sc_scriptCount :: nat
  sc_totalSize :: nat

record script =
  s_id :: nat
  s_targetId :: nat
  s_url :: string
  s_normalizedUrl :: string
  s_identifier :: string
  s_baseName :: string
  s_firstSeen :: nat
  s_lastSeen :: nat

record version =
  v_id :: nat
  v_scriptId :: nat
  v_scanId :: nat
  v_contentHash :: string
  v_contentFile :: string
  v_size :: nat
  v_url :: string
  v_timestamp :: nat

record storage =
  targets :: "(string \<times> target) list"
  scans :: "scan list"
  scripts :: "((nat \<times> string) \<times> script) list"
  scriptVersions :: "(nat \<times> version list) list"
  nextId_target :: nat
  nextId_scan :: nat
  nextId_script :: nat
  nextId_version :: nat
  scriptsDir :: string
  files :: "string \<rightharpoonup> string"

text \<open>The argument records of \<open>storeScript\<close> and its result.\<close>

record script_data =
  sd_url :: string
  sd_content :: string
  sd_size :: nat

record normalized_info =
  n_original :: string
  n_normalized :: string
  n_identifier :: string
  n_host :: string
  n_pathname :: string
  n_filename :: string

record store_result =
  r_scriptId :: nat
  r_versionId :: nat
  r_isNewScript :: bool
  r_isNewVersion :: bool
  r_contentHash :: string

text \<open>\<open>loadDb\<close> when no metadata file exists (or it does not parse).\<close>

definition loadDb :: "string \<Rightarrow> (string \<rightharpoonup> string) \<Rightarrow> storage" where
  "loadDb dir fs =
     \<lparr>targets = [], scans = [], scripts = [], scriptVersions = [],
      nextId_target = 1, nextId_scan = 1, nextId_script = 1, nextId_version = 1,
      scriptsDir = dir, files = fs\<rparr>"

subsection \<open>Printing a number, as a template literal does\<close>

definition digit_char :: "nat \<Rightarrow> char" where
  "digit_char d = ''0123456789'' ! d"

function string_of_nat :: "nat \<Rightarrow> string" where
  "string_of_nat n =
     (if n < 10 then [digit_char n] else string_of_nat (n div 10) @ [digit_char (n mod 10)])"
  by pat_completeness auto
termination
  by (relation "measure id") auto

text \<open>\<open>join(this.scriptsDir, `${versionId}.js`)\<close>, the directory being a normalised path.\<close>

definition contentPath :: "string \<Rightarrow> nat \<Rightarrow> string" where
  "contentPath dir versionId = dir @ ''/'' @ string_of_nat versionId @ ''.js''"

subsection \<open>Property lookup on a plain object\<close>

text \<open>
  \<open>obj[key]\<close> on a plain object finds an own property first and otherwise walks to
  \<open>Object.prototype\<close>, whose properties are functions (or, for \<open>__proto__\<close>, the prototype
  object itself): all truthy, none with an \<open>id\<close> field. Script keys contain a colon and
  version keys are digits, so only \<open>db.targets[domain]\<close> can reach an inherited property.
\<close>

datatype 'a js_lookup = Own 'a | Inherited | Undefined

definition object_prototype_keys :: "string list" where
  "object_prototype_keys =
     [''constructor'', ''__defineGetter__'', ''__defineSetter__'', ''hasOwnProperty'',
      ''__lookupGetter__'', ''__lookupSetter__'', ''isPrototypeOf'', ''propertyIsEnumerable'',
      ''toString'', ''valueOf'', ''__proto__'', ''toLocaleString'']"

definition js_get :: "(string \<times> 'a) list \<Rightarrow> string \<Rightarrow> 'a js_lookup" where
  "js_get obj key =
     (case map_of obj key of
        Some v \<Rightarrow> Own v
      | None \<Rightarrow> if key \<in> set object_prototype_keys then Inherited else Undefined)"

subsection \<open>Mutating operations\<close>

definition getOrCreateTarget :: "nat \<Rightarrow> storage \<Rightarrow> string \<Rightarrow> target js_lookup \<times> storage" where
  "getOrCreateTarget now st domain =
     (case js_get (targets st) domain of
        Undefined \<Rightarrow>
          (let t = \<lparr>t_id = nextId_target st, t_domain = domain, t_createdAt = now,
                    t_lastScan = None\<rparr>
           in (Own t, st\<lparr>targets := AList.update domain t (targets st),
                         nextId_target := nextId_target st + 1\<rparr>))
      | found \<Rightarrow> (found, st))"

text \<open>The \<open>for ... in\<close> loop of \<open>createScan\<close>: the first target with the id, then \<open>break\<close>.\<close>

fun updateLastScan :: "nat \<Rightarrow> nat \<Rightarrow> (string \<times> target) list \<Rightarrow> (string \<times> target) list" where
  "updateLastScan targetId ts [] = []"
| "updateLastScan targetId ts ((domain, t) # rest) =
     (if t_id t = targetId then (domain, t\<lparr>t_lastScan := Some ts\<rparr>) # rest
      else (domain, t) # updateLastScan targetId ts rest)"

definition createScan :: "nat \<Rightarrow> storage \<Rightarrow> nat \<Rightarrow> string \<Rightarrow> nat \<Rightarrow> nat \<Rightarrow> nat \<times> storage" where
  "createScan now st targetId url scriptCount totalSize =
     (let scanId = nextId_scan st;
          scan = \<lparr>sc_id = scanId, sc_targetId = targetId, sc_url = url, sc_timestamp = now,
                  sc_scriptCount = scriptCount, sc_totalSize = totalSize\<rparr>
      in (scanId, st\<lparr>nextId_scan := scanId + 1,
                      scans := scans st @ [scan],
                      targets := updateLastScan targetId now (targets st)\<rparr>))"

text \<open>\<open>this.db.scriptVersions[`${scriptId}`] || []\<close>.\<close>

definition versionsOf :: "storage \<Rightarrow> nat \<Rightarrow> version list" where
  "versionsOf st scriptId =
     (case map_of (scriptVersions st) scriptId of None \<Rightarrow> [] | Some vs \<Rightarrow> vs)"

text \<open>
  \<open>storeScript\<close> in three steps, as the source has them: resolve or create the script
  record, make sure its version list exists, then look the content hash up in that list.
\<close>

definition resolveScript ::
  "nat \<Rightarrow> storage \<Rightarrow> nat \<Rightarrow> script_data \<Rightarrow> normalized_info \<Rightarrow> script \<times> bool \<times> storage" where
  "resolveScript now st targetId scriptData normalizedInfo =
     (let scriptKey = (targetId, n_identifier normalizedInfo)
      in case map_of (scripts st) scriptKey of
           None \<Rightarrow>
             (let script = \<lparr>s_id = nextId_script st, s_targetId = targetId,
                             s_url = sd_url scriptData,
                             s_normalizedUrl = n_normalized normalizedInfo,
                             s_identifier = n_identifier normalizedInfo,
                             s_baseName = n_filename normalizedInfo,
                             s_firstSeen = now, s_lastSeen = now\<rparr>
              in (script, True,
                  st\<lparr>nextId_script := nextId_script st + 1,
                     scripts := AList.update scriptKey script (scripts st)\<rparr>))
         | Some found \<Rightarrow>
             (let script = found\<lparr>s_lastSeen := now\<rparr>
              in (script, False, st\<lparr>scripts := AList.update scriptKey script (scripts st)\<rparr>)))"

definition ensureVersionList :: "storage \<Rightarrow> nat \<Rightarrow> storage" where
  "ensureVersionList st versionKey =
     (case map_of (scriptVersions st) versionKey of
        None \<Rightarrow> st\<lparr>scriptVersions := AList.update versionKey [] (scriptVersions st)\<rparr>
      | Some vs \<Rightarrow> st)"

definition storeScript ::
  "(string \<Rightarrow> string) \<Rightarrow> nat \<Rightarrow> storage \<Rightarrow> nat \<Rightarrow> nat \<Rightarrow> script_data \<Rightarrow> normalized_info
     \<Rightarrow> store_result \<times> storage" where
  "storeScript hashContent now st targetId scanId scriptData normalizedInfo =
     (let hash = hashContent (sd_content scriptData);
          (script, newScript, st1) = resolveScript now st targetId scriptData normalizedInfo;
          versionKey = s_id script;
          st2 = ensureVersionList st1 versionKey
      in case find (\<lambda>v. v_contentHash v = hash) (versionsOf st2 versionKey) of
           None \<Rightarrow>
             (let newId = nextId_version st2;
                  contentFile = contentPath (scriptsDir st2) newId;
                  version = \<lparr>v_id = newId, v_scriptId = s_id script, v_scanId = scanId,
                              v_contentHash = hash, v_contentFile = contentFile,
                              v_size = sd_size scriptData, v_url = sd_url scriptData,
                              v_timestamp = now\<rparr>
              in (\<lparr>r_scriptId = s_id script, r_versionId = newId, r_isNewScript = newScript,
                    r_isNewVersion = True, r_contentHash = hash\<rparr>,
                  st2\<lparr>nextId_version := newId + 1,
                      files := (files st2)(contentFile \<mapsto> sd_content scriptData),
                      scriptVersions :=
                        AList.update versionKey (versionsOf st2 versionKey @ [version])
                          (scriptVersions st2)\<rparr>))
         | Some existingVersion \<Rightarrow>
             (\<lparr>r_scriptId = s_id script, r_versionId = v_id existingVersion,
               r_isNewScript = newScript, r_isNewVersion = False, r_contentHash = hash\<rparr>, st2))"

text \<open>
  \<open>removeTarget\<close>. An own target gives its id; an inherited property has no \<open>id\<close>, so
  \<open>targetId\<close> is \<open>undefined\<close> there and no script or scan (whose \<open>targetId\<close> is a number)
  is strictly equal to it.
\<close>

definition unlinkVersionFile :: "(string \<rightharpoonup> string) \<Rightarrow> version \<Rightarrow> (string \<rightharpoonup> string)" where
  "unlinkVersionFile fs v =
     (if v_contentFile v \<noteq> [] \<and> fs (v_contentFile v) \<noteq> None
      then fs(v_contentFile v := None) else fs)"

definition removeScriptOf :: "nat \<Rightarrow> storage \<Rightarrow> (nat \<times> string) \<times> script \<Rightarrow> storage" where
  "removeScriptOf targetId st entry =
     (case map_of (scripts st) (fst entry) of
        None \<Rightarrow> st
      | Some script \<Rightarrow>
          if s_targetId script = targetId
          then st\<lparr>files := foldl unlinkVersionFile (files st) (versionsOf st (s_id script)),
                  scriptVersions := AList.delete (s_id script) (scriptVersions st),
                  scripts := AList.delete (fst entry) (scripts st)\<rparr>
          else st)"

definition removeTarget :: "storage \<Rightarrow> string \<Rightarrow> bool \<times> storage" where
  "removeTarget st domain =
     (case js_get (targets st) domain of
        Undefined \<Rightarrow> (False, st)
      | Inherited \<Rightarrow> (True, st)
      | Own t \<Rightarrow>
          (let st1 = foldl (removeScriptOf (t_id t)) st (scripts st)
           in (True, st1\<lparr>scans := filter (\<lambda>s. sc_targetId s \<noteq> t_id t) (scans st1),
                         targets := AList.delete domain (targets st1)\<rparr>)))"

subsection \<open>Read operations\<close>

text \<open>
  \<open>Array.prototype.sort\<close> with a comparator is a stable sort: an element goes before
  another when the comparator is negative and equal elements keep their order.
  Insertion from the right end is such a sort.
\<close>

fun insort_cmp :: "('a \<Rightarrow> 'a \<Rightarrow> int) \<Rightarrow> 'a \<Rightarrow> 'a list \<Rightarrow> 'a list" where
  "insort_cmp cmp x [] = [x]"
| "insort_cmp cmp x (y # ys) =
     (if cmp x y \<le> 0 then x # y # ys else y # insort_cmp cmp x ys)"

definition js_sort :: "('a \<Rightarrow> 'a \<Rightarrow> int) \<Rightarrow> 'a list \<Rightarrow> 'a list" where
  "js_sort cmp xs = foldr (insort_cmp cmp) xs []"

text \<open>\<open>findIndex\<close>, with \<open>None\<close> for the source's \<open>-1\<close>.\<close>

fun findIndex :: "('a \<Rightarrow> bool) \<Rightarrow> 'a list \<Rightarrow> nat option" where
  "findIndex P [] = None"
| "findIndex P (x # xs) = (if P x then Some 0 else map_option Suc (findIndex P xs))"

text \<open>
  \<open>getPreviousVersion\<close> returns \<open>null\<close> or the previous version's record extended by
  its content: a pair here.
\<close>

definition getPreviousVersion :: "storage \<Rightarrow> nat \<Rightarrow> nat \<Rightarrow> (version \<times> string) option" where
  "getPreviousVersion st scriptId currentVersionId =
     (let versions = versionsOf st scriptId;
          sortedVersions = js_sort (\<lambda>a b. int (v_id b) - int (v_id a)) versions
      in case findIndex (\<lambda>v. v_id v = currentVersionId) sortedVersions of
           None \<Rightarrow> None
         | Some currentIndex \<Rightarrow>
             if currentIndex = length sortedVersions - 1 then None
             else (let prevVersion = sortedVersions ! (currentIndex + 1)
                   in if v_contentFile prevVersion \<noteq> []
                      then (case files st (v_contentFile prevVersion) of
                              Some content \<Rightarrow> Some (prevVersion, content)
                            | None \<Rightarrow> None)
                      else None))"

definition getScriptVersions :: "storage \<Rightarrow> nat \<Rightarrow> version list" where
  "getScriptVersions st scriptId =
     js_sort (\<lambda>a b. int (v_timestamp b) - int (v_timestamp a)) (versionsOf st scriptId)"

text \<open>
  \<open>getVersionContent\<close> walks the version lists in the enumeration order of the object
  (integer-like keys ascending) and stops at the first list holding the id. The result is
  \<open>null\<close>, the bare record (no \<open>content\<close> field), or the record with its content.
\<close>

fun findVersion :: "nat \<Rightarrow> (nat \<times> version list) list \<Rightarrow> version option" where
  "findVersion versionId [] = None"
| "findVersion versionId ((key, versions) # rest) =
     (case find (\<lambda>v. v_id v = versionId) versions of
        Some v \<Rightarrow> Some v
      | None \<Rightarrow> findVersion versionId rest)"

definition getVersionContent :: "storage \<Rightarrow> nat \<Rightarrow> (version \<times> string option) option" where
  "getVersionContent st versionId =
     (case findVersion versionId (sort_key fst (scriptVersions st)) of
        None \<Rightarrow> None
      | Some v \<Rightarrow>
          if v_contentFile v \<noteq> []
          then (case files st (v_contentFile v) of
                  Some content \<Rightarrow> Some (v, Some content)
                | None \<Rightarrow> Some (v, None))
          else Some (v, None))"

subsection \<open>Well-formed stores\<close>

text \<open>
  What every store that the operations build satisfies: dictionary keys are not repeated,
  ids were handed out by the counters, and a version names the content file of its id.
\<close>

definition wf_keys :: "storage \<Rightarrow> bool" where
  "wf_keys st \<longleftrightarrow>
     distinct (map fst (targets st)) \<and> distinct (map fst (scripts st)) \<and>
     distinct (map fst (scriptVersions st))"

definition wf_scripts :: "storage \<Rightarrow> bool" where
  "wf_scripts st \<longleftrightarrow>
     (\<forall>k s. map_of (scripts st) k = Some s \<longrightarrow>
        s_id s < nextId_script st \<and> k = (s_targetId s, s_identifier s)) \<and>
     (\<forall>k1 s1 k2 s2. map_of (scripts st) k1 = Some s1 \<and> map_of (scripts st) k2 = Some s2 \<and>
        k1 \<noteq> k2 \<longrightarrow> s_id s1 \<noteq> s_id s2)"

definition wf_versions :: "storage \<Rightarrow> bool" where
  "wf_versions st \<longleftrightarrow>
     (\<forall>k vs. map_of (scriptVersions st) k = Some vs \<longrightarrow>
        k < nextId_script st \<and> distinct (map v_id vs) \<and>
        (\<forall>v \<in> set vs. v_id v < nextId_version st \<and> v_scriptId v = k \<and>
           v_contentFile v = contentPath (scriptsDir st) (v_id v))) \<and>
     (\<forall>k1 vs1 k2 vs2 v1 v2.
        map_of (scriptVersions st) k1 = Some vs1 \<and> map_of (scriptVersions st) k2 = Some vs2 \<and>
        v1 \<in> set vs1 \<and> v2 \<in> set vs2 \<and> k1 \<noteq> k2 \<longrightarrow> v_id v1 \<noteq> v_id v2)"

definition wf_targets :: "storage \<Rightarrow> bool" where
  "wf_targets st \<longleftrightarrow>
     (\<forall>d t. map_of (targets st) d = Some t \<longrightarrow> t_id t < nextId_target st \<and> t_domain t = d) \<and>
     (\<forall>d1 t1 d2 t2. map_of (targets st) d1 = Some t1 \<and> map_of (targets st) d2 = Some t2 \<and>
        d1 \<noteq> d2 \<longrightarrow> t_id t1 \<noteq> t_id t2)"

definition wf_db :: "storage \<Rightarrow> bool" where
  "wf_db st \<longleftrightarrow> wf_keys st \<and> wf_targets st \<and> wf_scripts st \<and> wf_versions st"

text \<open>
  The stores a process can hold: a fresh one, then any sequence of the four mutating
  operations, with the file system free to change in between (content files are
  ordinary files that anything may delete).
\<close>

inductive reachable :: "(string \<Rightarrow> string) \<Rightarrow> storage \<Rightarrow> bool"
  for hashContent :: "string \<Rightarrow> string" where
  fresh: "reachable hashContent (loadDb dir fs)"
| target: "reachable hashContent st \<Longrightarrow>
     reachable hashContent (snd (getOrCreateTarget now st domain))"
| scan: "reachable hashContent st \<Longrightarrow>
     reachable hashContent (snd (createScan now st targetId url scriptCount totalSize))"
| store: "reachable hashContent st \<Longrightarrow>
     reachable hashContent (snd (storeScript hashContent now st targetId scanId scriptData info))"
| remove: "reachable hashContent st \<Longrightarrow> reachable hashContent (snd (removeTarget st domain))"
| disk: "reachable hashContent st \<Longrightarrow> reachable hashContent (st\<lparr>files := fs\<rparr>)"

text \<open>
  What can happen to a store \<open>st\<close> between two calls of \<open>storeScript\<close> for a script of
  the target \<open>targetId\<close>: any sequence of the operations and of file-system changes in
  which that target is not removed (removal destroys the target's scripts and versions).
\<close>

inductive later :: "(string \<Rightarrow> string) \<Rightarrow> nat \<Rightarrow> storage \<Rightarrow> storage \<Rightarrow> bool"
  for hashContent :: "string \<Rightarrow> string" and targetId :: nat and st :: storage where
  same: "later hashContent targetId st st"
| target: "later hashContent targetId st st' \<Longrightarrow>
     later hashContent targetId st (snd (getOrCreateTarget now st' domain))"
| scan: "later hashContent targetId st st' \<Longrightarrow>
     later hashContent targetId st (snd (createScan now st' tid url scriptCount totalSize))"
| store: "later hashContent targetId st st' \<Longrightarrow>
     later hashContent targetId st (snd (storeScript hashContent now st' tid scanId scriptData info))"
| remove: "later hashContent targetId st st' \<Longrightarrow>
     (\<forall>t. map_of (targets st') domain = Some t \<longrightarrow> t_id t \<noteq> targetId) \<Longrightarrow>
     later hashContent targetId st (snd (removeTarget st' domain))"
| disk: "later hashContent targetId st st' \<Longrightarrow> later hashContent targetId st (st'\<lparr>files := fs\<rparr>)"

section \<open>Diff statistics (src/differ.js)\<close>

text \<open>
  \<open>diffLines\<close> belongs to the \<open>diff\<close> package; its result, a list of parts each with a
  text and the flags \<open>added\<close> and \<open>removed\<close>, is the input here.
\<close>

record part =
  p_value :: string
  p_added :: bool
  p_removed :: bool

text \<open>\<open>s.split(sep)\<close> for a one-character separator: never empty, one more piece than
  there are separators.\<close>

fun split_on :: "char \<Rightarrow> string \<Rightarrow> string list" where
  "split_on sep [] = [[]]"
| "split_on sep (c # cs) =
     (if c = sep then [] # split_on sep cs
      else (case split_on sep cs of
              [] \<Rightarrow> [[c]]
            | piece # pieces \<Rightarrow> (c # piece) # pieces))"

definition newline :: char where
  "newline = CHR 0x0A"

text \<open>
  \<open>changePercent\<close> is \<open>((additions + deletions) / (totalOld || 1) * 100).toFixed(2)\<close>, a
  computation in doubles; the record keeps its two integer operands instead.
\<close>

record stats =
  additions :: nat
  deletions :: nat
  unchanged :: nat
  totalOld :: nat
  totalNew :: nat
  changeNumerator :: nat
  changeDenominator :: nat

record counts =
  cnt_additions :: nat
  cnt_deletions :: nat
  cnt_unchanged :: nat

definition countPart :: "counts \<Rightarrow> part \<Rightarrow> counts" where
  "countPart acc p =
     (let lines = length (split_on newline (p_value p)) - 1
      in if p_added p then acc\<lparr>cnt_additions := cnt_additions acc + lines\<rparr>
         else if p_removed p then acc\<lparr>cnt_deletions := cnt_deletions acc + lines\<rparr>
         else acc\<lparr>cnt_unchanged := cnt_unchanged acc + lines\<rparr>)"

definition calculateStats :: "part list \<Rightarrow> string \<Rightarrow> string \<Rightarrow> stats" where
  "calculateStats lineDiff oldContent newContent =
     (let acc = foldl countPart \<lparr>cnt_additions = 0, cnt_deletions = 0, cnt_unchanged = 0\<rparr> lineDiff;
          tOld = length (split_on newline oldContent);
          tNew = length (split_on newline newContent)
      in \<lparr>additions = cnt_additions acc, deletions = cnt_deletions acc,
          unchanged = cnt_unchanged acc, totalOld = tOld, totalNew = tNew,
          changeNumerator = cnt_additions acc + cnt_deletions acc,
          changeDenominator = (if tOld = 0 then 1 else tOld)\<rparr>)"

text \<open>\<open>extractChanges\<close>, the other reader of the same parts: it lists the non-empty lines
  of the added and of the removed parts with their line numbers.\<close>

record changes =
  ch_added :: "(nat \<times> string) list"
  ch_removed :: "(nat \<times> string) list"
  ch_lineNumber :: nat

fun numberFrom :: "nat \<Rightarrow> string list \<Rightarrow> (nat \<times> string) list" where
  "numberFrom n [] = []"
| "numberFrom n (l # ls) = (n, l) # numberFrom (Suc n) ls"

definition extractPart :: "changes \<Rightarrow> part \<Rightarrow> changes" where
  "extractPart acc p =
     (let lines = filter (\<lambda>l. length l > 0) (split_on newline (p_value p))
      in if p_added p
         then acc\<lparr>ch_added := ch_added acc @ numberFrom (ch_lineNumber acc) lines,
                  ch_lineNumber := ch_lineNumber acc + length lines\<rparr>
         else if p_removed p
         then acc\<lparr>ch_removed := ch_removed acc @ map (\<lambda>l. (ch_lineNumber acc, l)) lines\<rparr>
         else acc\<lparr>ch_lineNumber := ch_lineNumber acc + length lines\<rparr>)"

definition extractChanges :: "part list \<Rightarrow> (nat \<times> string) list \<times> (nat \<times> string) list" where
  "extractChanges lineDiff =
     (let acc = foldl extractPart \<lparr>ch_added = [], ch_removed = [], ch_lineNumber = 1\<rparr> lineDiff
      in (ch_added acc, ch_removed acc))"

section \<open>Identity normalizer (FilenameNormalizer)\<close>

text \<open>
  \<open>new URL(url)\<close> is the platform's URL parser. It is a parameter of \<open>normalize\<close>:
  \<open>None\<close> when the constructor throws, otherwise the four components the code reads.
  The path and the query of a parsed URL are ASCII, so a \<open>char\<close> is a code unit there.
\<close>

record parsed_url =
  u_origin :: string
  u_host :: string
  u_pathname :: string
  u_search :: string

subsection \<open>Character classes\<close>

definition is_digit :: "char \<Rightarrow> bool" where
  "is_digit c \<longleftrightarrow> c \<in> set ''0123456789''"

text \<open>\<open>[a-f0-9]\<close> under the \<open>i\<close> flag.\<close>

definition is_hex :: "char \<Rightarrow> bool" where
  "is_hex c \<longleftrightarrow> c \<in> set ''0123456789abcdefABCDEF''"

text \<open>\<open>\w\<close>.\<close>

definition is_word :: "char \<Rightarrow> bool" where
  "is_word c \<longleftrightarrow>
     c \<in> set ''abcdefghijklmnopqrstuvwxyzABCDEFGHIJKLMNOPQRSTUVWXYZ0123456789_''"

text \<open>\<open>[.\-_]\<close>.\<close>

definition is_sep :: "char \<Rightarrow> bool" where
  "is_sep c \<longleftrightarrow> c \<in> set ''.-_''"

definition lower :: "char \<Rightarrow> char" where
  "lower c =
     (case map_of (zip ''ABCDEFGHIJKLMNOPQRSTUVWXYZ'' ''abcdefghijklmnopqrstuvwxyz'') c of
        Some l \<Rightarrow> l
      | None \<Rightarrow> c)"

text \<open>A literal under the \<open>i\<close> flag, at the start of the subject. The literal is lower case.\<close>

definition starts_ci :: "string \<Rightarrow> string \<Rightarrow> bool" where
  "starts_ci lit s \<longleftrightarrow> map lower (take (length lit) s) = lit"

definition run :: "(char \<Rightarrow> bool) \<Rightarrow> string \<Rightarrow> nat" where
  "run P s = length (takeWhile P s)"

subsection \<open>Replacing the matches of a regular expression\<close>

text \<open>
  A matcher receives the character before the current position (\<open>None\<close> at the start of
  the subject, needed for \<open>\b\<close>) and the subject from the current position on, and
  returns the length of the match that the backtracking matcher finds there.
  \<open>replace\<close> with a \<open>g\<close> regular expression scans the subject from the left: at a match it
  emits the replacement and continues behind the match, otherwise it copies one
  character. No pattern of this program matches the empty string.
\<close>

type_synonym matcher = "char option \<Rightarrow> string \<Rightarrow> nat option"

function replace_all :: "matcher \<Rightarrow> string \<Rightarrow> char option \<Rightarrow> string \<Rightarrow> string" where
  "replace_all m rep prev [] = []"
| "replace_all m rep prev (c # cs) =
     (case m prev (c # cs) of
        Some (Suc n) \<Rightarrow> rep @ replace_all m rep (Some ((c # cs) ! n)) (drop n cs)
      | _ \<Rightarrow> c # replace_all m rep (Some c) cs)"
  by pat_completeness auto
termination
  by (relation "measure (\<lambda>(m, rep, prev, s). length s)") auto

text \<open>Without the \<open>g\<close> flag only the first match is replaced.\<close>

fun replace_first :: "matcher \<Rightarrow> string \<Rightarrow> char option \<Rightarrow> string \<Rightarrow> string" where
  "replace_first m rep prev [] = []"
| "replace_first m rep prev (c # cs) =
     (case m prev (c # cs) of
        Some (Suc n) \<Rightarrow> rep @ drop n cs
      | _ \<Rightarrow> c # replace_first m rep (Some c) cs)"

subsection \<open>The patterns\<close>

text \<open>\<open>/([a-f0-9]{8,32})/gi\<close>: a greedy run of hex digits, at most 32 of them.\<close>

definition m_hash :: matcher where
  "m_hash prev s = (let n = run is_hex s in if 8 \<le> n then Some (min n 32) else None)"

text \<open>
  \<open>/\.([a-f0-9]{6,})\./gi\<close>: the dot that closes the match is no hex digit, so only the
  whole run of hex digits can be followed by it.
\<close>

definition m_dothash :: matcher where
  "m_dothash prev s =
     (case s of
        [] \<Rightarrow> None
      | c # cs \<Rightarrow>
          if c = CHR ''.'' \<and> 6 \<le> run is_hex cs \<and> take 1 (drop (run is_hex cs) cs) = ''.''
          then Some (run is_hex cs + 2) else None)"

text \<open>\<open>/chunk[.\-_](\d+)/gi\<close>.\<close>

definition m_chunk :: matcher where
  "m_chunk prev s =
     (if starts_ci ''chunk'' s \<and> list_ex is_sep (take 1 (drop 5 s))
         \<and> 1 \<le> run is_digit (drop 6 s)
      then Some (6 + run is_digit (drop 6 s)) else None)"

text \<open>\<open>/\/(\d+)\.js$/i\<close>: not global, anchored at the end of the subject.\<close>

definition m_numbered :: matcher where
  "m_numbered prev s =
     (case s of
        [] \<Rightarrow> None
      | c # cs \<Rightarrow>
          if c = CHR ''/'' \<and> 1 \<le> run is_digit cs \<and> map lower (drop (run is_digit cs) cs) = ''.js''
          then Some (run is_digit cs + 4) else None)"

text \<open>
  \<open>/[v]?\d+\.\d+\.\d+(-[\w.]+)?/gi\<close>. Each \<open>\d+\<close> is followed by a character that is no
  digit, and a subject that starts with \<open>v\<close> cannot match without it, so the greedy
  choices are the only ones.
\<close>

definition digits_dot :: "string \<Rightarrow> (nat \<times> string) option" where
  "digits_dot s =
     (if 1 \<le> run is_digit s \<and> take 1 (drop (run is_digit s) s) = ''.''
      then Some (run is_digit s + 1, drop (run is_digit s + 1) s) else None)"

definition prerelease :: "string \<Rightarrow> nat" where
  "prerelease s =
     (if take 1 s = ''-'' \<and> 1 \<le> run (\<lambda>c. is_word c \<or> c = CHR ''.'') (drop 1 s)
      then 1 + run (\<lambda>c. is_word c \<or> c = CHR ''.'') (drop 1 s) else 0)"

definition m_version :: matcher where
  "m_version prev s =
     (let v = (if map lower (take 1 s) = ''v'' then 1 else 0)
      in case digits_dot (drop v s) of
           None \<Rightarrow> None
         | Some (n1, s1) \<Rightarrow>
             (case digits_dot s1 of
                None \<Rightarrow> None
              | Some (n2, s2) \<Rightarrow>
                  if 1 \<le> run is_digit s2
                  then Some (v + n1 + n2 + run is_digit s2 + prerelease (drop (run is_digit s2) s2))
                  else None))"

text \<open>
  \<open>/\b\d{10,13}\b/g\<close>: the run of digits starts and ends at a word boundary, so it is a
  whole run of 10 to 13 digits with no word character on either side.
\<close>

definition m_timestamp :: matcher where
  "m_timestamp prev s =
     (let n = run is_digit s
      in if (case prev of None \<Rightarrow> True | Some p \<Rightarrow> \<not> is_word p) \<and> 10 \<le> n \<and> n \<le> 13
            \<and> \<not> list_ex is_word (take 1 (drop n s))
         then Some n else None)"

text \<open>\<open>/[a-f0-9]{8}-[a-f0-9]{4}-[a-f0-9]{4}-[a-f0-9]{4}-[a-f0-9]{12}/gi\<close>.\<close>

fun hex_groups :: "nat list \<Rightarrow> string \<Rightarrow> bool" where
  "hex_groups [] s = True"
| "hex_groups [n] s = (length (take n s) = n \<and> list_all is_hex (take n s))"
| "hex_groups (n # ns) s =
     (length (take n s) = n \<and> list_all is_hex (take n s) \<and> take 1 (drop n s) = ''-''
      \<and> hex_groups ns (drop (n + 1) s))"

definition m_uuid :: matcher where
  "m_uuid prev s = (if hex_groups [8, 4, 4, 4, 12] s then Some 36 else None)"

text \<open>\<open>/build[.\-_]?\d+/gi\<close>.\<close>

definition m_build :: matcher where
  "m_build prev s =
     (let sep = (if list_ex is_sep (take 1 (drop 5 s)) then 1 else 0)
      in if starts_ci ''build'' s \<and> 1 \<le> run is_digit (drop (5 + sep) s)
         then Some (5 + sep + run is_digit (drop (5 + sep) s)) else None)"

text \<open>\<open>/runtime~[\w]+/gi\<close>.\<close>

definition m_runtime :: matcher where
  "m_runtime prev s =
     (if starts_ci ''runtime~'' s \<and> 1 \<le> run is_word (drop 8 s)
      then Some (8 + run is_word (drop 8 s)) else None)"

text \<open>The table \<open>this.patterns\<close>: matcher, \<open>g\<close> flag, replacement, in the order of the source.\<close>

datatype pattern = Pattern matcher bool string

definition patterns :: "pattern list" where
  "patterns =
     [Pattern m_hash True ''[hash]'',
      Pattern m_dothash True ''.[hash].'',
      Pattern m_chunk True ''chunk.[id]'',
      Pattern m_numbered False ''/[chunk].js'',
      Pattern m_version True ''[version]'',
      Pattern m_timestamp True ''[timestamp]'',
      Pattern m_uuid True ''[uuid]'',
      Pattern m_build True ''build[n]'',
      Pattern m_runtime True ''runtime~[name]'']"

text \<open>\<open>subject.replace(pattern.regex, pattern.replacement)\<close>.\<close>

fun replace_pattern :: "string \<Rightarrow> pattern \<Rightarrow> string" where
  "replace_pattern s (Pattern m global rep) =
     (if global then replace_all m rep None s else replace_first m rep None s)"

definition applyPatterns :: "string \<Rightarrow> string" where
  "applyPatterns s = foldl replace_pattern s patterns"

subsection \<open>The stable identifier\<close>

text \<open>A literal such as \<open>/\[hash\]/g\<close>, and a run such as \<open>/--+/g\<close>.\<close>

definition m_literal :: "string \<Rightarrow> matcher" where
  "m_literal lit prev s = (if take (length lit) s = lit then Some (length lit) else None)"

definition m_repeated :: "char \<Rightarrow> matcher" where
  "m_repeated ch prev s = (if 2 \<le> run (\<lambda>c. c = ch) s then Some (run (\<lambda>c. c = ch) s) else None)"

definition strippedPlaceholders :: "string list" where
  "strippedPlaceholders = [''[hash]'', ''[id]'', ''[chunk]'', ''[timestamp]'', ''[uuid]'', ''[version]'']"

definition stripPlaceholders :: "string \<Rightarrow> string" where
  "stripPlaceholders s = foldl (\<lambda>s lit. replace_all (m_literal lit) [] None s) s strippedPlaceholders"

definition collapseRuns :: "char \<Rightarrow> string \<Rightarrow> string" where
  "collapseRuns ch s = replace_all (m_repeated ch) [ch] None s"

definition createIdentifier :: "string \<Rightarrow> string \<Rightarrow> string" where
  "createIdentifier origin normalizedPath =
     origin @ collapseRuns CHR ''.'' (collapseRuns CHR ''-'' (stripPlaceholders normalizedPath))"

subsection \<open>normalize (named normalize_url here)\<close>

definition normalize_url :: "(string \<Rightarrow> parsed_url option) \<Rightarrow> string \<Rightarrow> normalized_info" where
  "normalize_url parseURL url =
     (case parseURL url of
        Some parsed \<Rightarrow>
          (let pathname = applyPatterns (u_pathname parsed);
               search = applyPatterns (u_search parsed)
           in \<lparr>n_original = url,
               n_normalized = u_origin parsed @ pathname @ search,
               n_identifier = createIdentifier (u_origin parsed) pathname,
               n_host = u_host parsed,
               n_pathname = pathname,
               n_filename = last (split_on CHR ''/'' pathname)\<rparr>)
      | None \<Rightarrow>
          \<lparr>n_original = url, n_normalized = url, n_identifier = url, n_host = ''unknown'',
           n_pathname = url, n_filename = url\<rparr>)"

subsection \<open>Reading the claims\<close>

text \<open>A text occurs in a string; a string has two equal neighbours.\<close>

fun occurs_in :: "string \<Rightarrow> string \<Rightarrow> bool" where
  "occurs_in lit [] = (lit = [])"
| "occurs_in lit (c # cs) = (take (length lit) (c # cs) = lit \<or> occurs_in lit cs)"

fun no_adjacent :: "char \<Rightarrow> string \<Rightarrow> bool" where
  "no_adjacent ch (x # y # rest) = (\<not> (x = ch \<and> y = ch) \<and> no_adjacent ch (y # rest))"
| "no_adjacent ch s = True"

subsection \<open>Tokens that a rule recognizes\<close>

text \<open>
  A path is read as \<open>pre @ t @ post\<close>, with \<open>t\<close> the volatile token. The character before
  a position of a text, and the last character read once the text is behind, given the
  character that stands before the text.
\<close>

definition char_before :: "char option \<Rightarrow> string \<Rightarrow> nat \<Rightarrow> char option" where
  "char_before p s k = (if k = 0 then p else Some (s ! (k - 1)))"

definition last_char :: "char option \<Rightarrow> string \<Rightarrow> char option" where
  "last_char p s = (if s = [] then p else Some (last s))"

text \<open>
  The parts of a table entry, and \<open>replace\<close> for an entry when the subject is the rest of
  a longer text, so that a character stands before it.
\<close>

fun matcher_of :: "pattern \<Rightarrow> matcher" where
  "matcher_of (Pattern m global rep) = m"

fun replace_from :: "char option \<Rightarrow> pattern \<Rightarrow> string \<Rightarrow> string" where
  "replace_from prev (Pattern m global rep) s =
     (if global then replace_all m rep prev s else replace_first m rep prev s)"


text \<open>
  A matcher is \<^emph>\<open>settled\<close> on the text \<open>a\<close> before \<open>b\<close> when, at every position of \<open>a\<close>, it
  finds the same match with and without \<open>b\<close>, and that match ends inside \<open>a\<close>: what the
  rule does before the token neither depends on the token nor reaches into it. It is
  \<^emph>\<open>quiet\<close> on \<open>t\<close> when it finds no match that starts inside \<open>t\<close>. It is \<^emph>\<open>exact\<close> on
  \<open>t\<close> when at the start of \<open>t\<close> it matches \<open>t\<close> and nothing more.
\<close>

fun match_length :: "nat option \<Rightarrow> nat" where
  "match_length None = 0"
| "match_length (Some n) = n"

definition settled :: "matcher \<Rightarrow> char option \<Rightarrow> string \<Rightarrow> string \<Rightarrow> bool" where
  "settled m p a b \<longleftrightarrow>
     list_all (\<lambda>k. m (char_before p a k) (drop k a @ b) = m (char_before p a k) (drop k a) \<and>
                   match_length (m (char_before p a k) (drop k a)) \<le> length a - k)
       [0..<length a]"

definition quiet :: "matcher \<Rightarrow> char option \<Rightarrow> string \<Rightarrow> string \<Rightarrow> bool" where
  "quiet m p t b \<longleftrightarrow> list_all (\<lambda>k. m (char_before p t k) (drop k t @ b) = None) [0..<length t]"

definition exact :: "matcher \<Rightarrow> char option \<Rightarrow> string \<Rightarrow> string \<Rightarrow> bool" where
  "exact m p t b \<longleftrightarrow> t \<noteq> [] \<and> m p (t @ b) = Some (length t)"

text \<open>
  The rule \<open>own\<close> recognizes the token \<open>t\<close> after the earlier rules \<open>rs\<close> have run: each
  earlier rule, applied to what the rules before it have left, is settled before the token
  and quiet on it, and \<open>own\<close> is settled before the token and exact on it. The entry
  \<open>i\<close> of the table recognizes a token when it does so after the entries before it.
\<close>

fun recognized :: "pattern list \<Rightarrow> pattern \<Rightarrow> string \<Rightarrow> string \<Rightarrow> string \<Rightarrow> bool" where
  "recognized [] own pre t post \<longleftrightarrow>
     settled (matcher_of own) None pre (t @ post) \<and>
     exact (matcher_of own) (last_char None pre) t post"
| "recognized (r # rs) own pre t post \<longleftrightarrow>
     settled (matcher_of r) None pre (t @ post) \<and>
     quiet (matcher_of r) (last_char None pre) t post \<and>
     recognized rs own (replace_from None r pre) t (replace_from (last_char None t) r post)"

definition recognized_by :: "nat \<Rightarrow> string \<Rightarrow> string \<Rightarrow> string \<Rightarrow> bool" where
  "recognized_by i pre t post \<longleftrightarrow>
     i < length patterns \<and> recognized (take i patterns) (patterns ! i) pre t post"


definition boundary_only :: "matcher \<Rightarrow> bool" where
  "boundary_only m \<longleftrightarrow> (\<forall>a b s. is_word a = is_word b \<longrightarrow> m (Some a) s = m (Some b) s)"


subsection \<open>The identifier in the words of the specification\<close>

text \<open>
  The specification derives the identifier by \<^emph>\<open>stripping\<close> placeholder tokens and
  \<^emph>\<open>collapsing\<close> runs of punctuation. These two functions say what that means on a
  string, without a regular expression: a token is deleted wherever it is met when the
  string is read once from the left, and a character that is followed by an equal
  punctuation character is dropped. They are compared with \<open>createIdentifier\<close> below.
\<close>

function spec_strip_token :: "string \<Rightarrow> string \<Rightarrow> string" where
  "spec_strip_token tok [] = []"
| "spec_strip_token tok (c # cs) =
     (if tok \<noteq> [] \<and> take (length tok) (c # cs) = tok
      then spec_strip_token tok (drop (length tok) (c # cs))
      else c # spec_strip_token tok cs)"
  by pat_completeness auto
termination
  by (relation "measure (\<lambda>(tok, s). length s)") auto

definition spec_strip :: "string list \<Rightarrow> string \<Rightarrow> string" where
  "spec_strip toks s = foldl (\<lambda>s tok. spec_strip_token tok s) s toks"

fun spec_collapse :: "char \<Rightarrow> string \<Rightarrow> string" where
  "spec_collapse ch (x # y # rest) =
     (if x = ch \<and> y = ch then spec_collapse ch (y # rest) else x # spec_collapse ch (y # rest))"
| "spec_collapse ch s = s"

text \<open>
  A normalized path as a sequence of pieces: text, and placeholders \<open>[name]\<close>. A piece is
  plain when its text has no opening bracket and its name has no bracket. The names of
  the six placeholders that \<open>createIdentifier\<close> lists are the stripped ones; every other
  piece is kept.
\<close>

datatype piece = Text string | Placeholder string

fun render :: "piece \<Rightarrow> string" where
  "render (Text a) = a"
| "render (Placeholder name) = ''['' @ name @ '']''"

fun plain :: "piece \<Rightarrow> bool" where
  "plain (Text a) = (CHR ''['' \<notin> set a)"
| "plain (Placeholder name) = (CHR ''['' \<notin> set name \<and> CHR '']'' \<notin> set name)"

definition strippedNames :: "string list" where
  "strippedNames = [''hash'', ''id'', ''chunk'', ''timestamp'', ''uuid'', ''version'']"

definition kept :: "piece \<Rightarrow> bool" where
  "kept p \<longleftrightarrow> p \<notin> set (map Placeholder strippedNames)"
subsection \<open>Example data\<close>

text \<open>The scenario of the specification: target \<open>a.com\<close>, script \<open>main.*.js\<close>.\<close>

definition mainA :: script_data where
  "mainA = \<lparr>sd_url = ''https://a.com/main.abc12345.js'', sd_content = ''X'', sd_size = 1\<rparr>"

definition mainB :: script_data where
  "mainB = \<lparr>sd_url = ''https://a.com/main.0f1e2d3c.js'', sd_content = ''Y'', sd_size = 1\<rparr>"

definition mainInfo :: normalized_info where
  "mainInfo = \<lparr>n_original = ''https://a.com/main.abc12345.js'',
                n_normalized = ''https://a.com/main.[hash].js'',
                n_identifier = ''https://a.com/main.js'', n_host = ''a.com'',
                n_pathname = ''/main.[hash].js'', n_filename = ''main.[hash].js''\<rparr>"

definition freshStore :: storage where
  "freshStore = loadDb ''data/scripts'' Map.empty"

text \<open>Two versions of the script stored by two scans; then the same store after content
  files were deleted from disk; then two versions stored within the same millisecond.\<close>

definition twoVersions :: storage where
  "twoVersions =
     snd (storeScript (\<lambda>c. c) 2000
       (snd (storeScript (\<lambda>c. c) 1000 freshStore 1 1 mainA mainInfo)) 1 2 mainB mainInfo)"

definition version1 :: version where
  "version1 = \<lparr>v_id = 1, v_scriptId = 1, v_scanId = 1, v_contentHash = ''X'',
                v_contentFile = ''data/scripts/1.js'', v_size = 1,
                v_url = ''https://a.com/main.abc12345.js'', v_timestamp = 1000\<rparr>"

definition version2 :: version where
  "version2 = \<lparr>v_id = 2, v_scriptId = 1, v_scanId = 2, v_contentHash = ''Y'',
                v_contentFile = ''data/scripts/2.js'', v_size = 1,
                v_url = ''https://a.com/main.0f1e2d3c.js'', v_timestamp = 2000\<rparr>"

definition allFilesGone :: storage where
  "allFilesGone = twoVersions\<lparr>files := Map.empty\<rparr>"

definition firstFileGone :: storage where
  "firstFileGone = twoVersions\<lparr>files := (files twoVersions)(''data/scripts/1.js'' := None)\<rparr>"

definition sameInstant :: storage where
  "sameInstant =
     snd (storeScript (\<lambda>c. c) 5000
       (snd (storeScript (\<lambda>c. c) 5000 freshStore 1 1 mainA mainInfo)) 1 1 mainB mainInfo)"

text \<open>A second script of the same target; the store after the first call for \<open>main.js\<close>,
  and after a scan that follows it; a digest function that maps every content to the
  same 64 characters.\<close>

definition vendorInfo :: normalized_info where
  "vendorInfo = \<lparr>n_original = ''https://a.com/vendor.abc12345.js'',
                  n_normalized = ''https://a.com/vendor.[hash].js'',
                  n_identifier = ''https://a.com/vendor.js'', n_host = ''a.com'',
                  n_pathname = ''/vendor.[hash].js'', n_filename = ''vendor.[hash].js''\<rparr>"

definition afterMainA :: storage where
  "afterMainA = snd (storeScript (\<lambda>c. c) 1000 freshStore 1 1 mainA mainInfo)"

definition afterScan :: storage where
  "afterScan = snd (createScan 1500 afterMainA 1 ''https://a.com/'' 1 1)"

definition zeroDigest :: "string \<Rightarrow> string" where
  "zeroDigest c = replicate 64 CHR ''0''"

text \<open>What \<open>new URL\<close> returns for the URLs of the examples; it throws for every other
  string used in them.\<close>

definition onSite :: "string \<Rightarrow> string \<times> parsed_url" where
  "onSite path =
     (''https://a.com'' @ path,
      \<lparr>u_origin = ''https://a.com'', u_host = ''a.com'', u_pathname = path, u_search = []\<rparr>)"

definition exampleURL :: "string \<Rightarrow> parsed_url option" where
  "exampleURL =
     map_of [onSite ''/main.1a2b3c4d.js'', onSite ''/main.9f8e7d6c.js'',
             onSite ''/js/build123.js'', onSite ''/js/build20240115.js'',
             onSite ''/js/chunk-12.js'', onSite ''/js/chunk-987.js'',
             onSite ''/static/7.js'', onSite ''/static/1234.js'',
             onSite ''/lib/v1.2.3/app.js'', onSite ''/lib/v10.0.1-rc.1/app.js'',
             onSite ''/js/build-12.js'', onSite ''/js/build-345.js'',
             onSite ''/js/runtime~main.js'', onSite ''/js/runtime~vendor.js'',
             onSite ''/app.abcdef.js'', onSite ''/app.123456.js'',
             onSite ''/t/1704067200/x.js'', onSite ''/t/1704067999/x.js'',
             onSite ''/[has12345678h]/app.js'']"

text \<open>
  Two results of \<open>diffLines\<close>. The first is for the one-line texts \<open>(a\<close> and \<open>(b\<close>,
  which do not parse as JavaScript: the formatter rejects them and they are compared as
  they are, without a final newline. The second is for two texts of three lines each: \<open>a;\<close>, a blank
  line, then \<open>b;\<close> in the old text and \<open>c;\<close> in the new one, every line ended by a
  newline. The formatter leaves such texts as they are, and the blank line sits in the
  unchanged part.
\<close>

definition replacedLine :: "part list" where
  "replacedLine =
     [\<lparr>p_value = ''(a'', p_added = False, p_removed = True\<rparr>,
      \<lparr>p_value = ''(b'', p_added = True, p_removed = False\<rparr>]"

definition blankLine :: "part list" where
  "blankLine =
     [\<lparr>p_value = ''a;'' @ [newline, newline], p_added = False, p_removed = False\<rparr>,
      \<lparr>p_value = ''b;'' @ [newline], p_added = False, p_removed = True\<rparr>,
      \<lparr>p_value = ''c;'' @ [newline], p_added = True, p_removed = False\<rparr>]"

text \<open>The non-empty lines of the parts with a given pair of flags, counted as
  \<open>extractChanges\<close> finds them.\<close>

definition nonEmptyLines :: "bool \<Rightarrow> bool \<Rightarrow> part list \<Rightarrow> nat" where
  "nonEmptyLines added removed lineDiff =
     length (concat (map (\<lambda>p. filter (\<lambda>l. length l > 0) (split_on newline (p_value p)))
        (filter (\<lambda>p. p_added p = added \<and> p_removed p = removed) lineDiff)))"

section \<open>Properties of the version store\<close>

subsection \<open>The operations keep stores well-formed\<close>


lemma wf_loadDb: "wf_db (loadDb dir fs)"
  by (simp add: wf_db_def wf_keys_def wf_targets_def wf_scripts_def wf_versions_def loadDb_def)

lemma wf_files: "wf_db st \<Longrightarrow> wf_db (st\<lparr>files := fs\<rparr>)"
  by (simp add: wf_db_def wf_keys_def wf_targets_def wf_scripts_def wf_versions_def)

lemma wf_targetsI:
  assumes "\<And>d t. map_of (targets st) d = Some t \<Longrightarrow> t_id t < nextId_target st \<and> t_domain t = d"
    and "\<And>d1 t1 d2 t2. map_of (targets st) d1 = Some t1 \<Longrightarrow> map_of (targets st) d2 = Some t2 \<Longrightarrow>
        d1 \<noteq> d2 \<Longrightarrow> t_id t1 \<noteq> t_id t2"
  shows "wf_targets st"
  unfolding wf_targets_def using assms by blast

lemma wf_targets_bound:
  "wf_targets st \<Longrightarrow> map_of (targets st) d = Some t \<Longrightarrow> t_id t < nextId_target st \<and> t_domain t = d"
  unfolding wf_targets_def by blast

lemma wf_targets_unique:
  "wf_targets st \<Longrightarrow> map_of (targets st) d1 = Some t1 \<Longrightarrow> map_of (targets st) d2 = Some t2 \<Longrightarrow>
     d1 \<noteq> d2 \<Longrightarrow> t_id t1 \<noteq> t_id t2"
  unfolding wf_targets_def by blast

lemma wf_targets_new:
  assumes wf: "wf_targets st" and none: "map_of (targets st) domain = None"
    and t: "t_id t = nextId_target st" "t_domain t = domain"
  shows "wf_targets (st\<lparr>targets := AList.update domain t (targets st),
                        nextId_target := nextId_target st + 1\<rparr>)"
proof (rule wf_targetsI)
  fix d t'
  assume "map_of (targets (st\<lparr>targets := AList.update domain t (targets st),
                        nextId_target := nextId_target st + 1\<rparr>)) d = Some t'"
  then have "(d = domain \<and> t' = t) \<or> (d \<noteq> domain \<and> map_of (targets st) d = Some t')"
    by (simp add: update_conv' split: if_splits)
  then show "t_id t' < nextId_target (st\<lparr>targets := AList.update domain t (targets st),
                        nextId_target := nextId_target st + 1\<rparr>) \<and> t_domain t' = d"
    using wf_targets_bound[OF wf, of d t'] t by auto
next
  fix d1 t1 d2 t2
  let ?st = "st\<lparr>targets := AList.update domain t (targets st),
                        nextId_target := nextId_target st + 1\<rparr>"
  assume a: "map_of (targets ?st) d1 = Some t1" "map_of (targets ?st) d2 = Some t2" "d1 \<noteq> d2"
  from a(1) have c1: "(d1 = domain \<and> t1 = t) \<or> (d1 \<noteq> domain \<and> map_of (targets st) d1 = Some t1)"
    by (simp add: update_conv' split: if_splits)
  from a(2) have c2: "(d2 = domain \<and> t2 = t) \<or> (d2 \<noteq> domain \<and> map_of (targets st) d2 = Some t2)"
    by (simp add: update_conv' split: if_splits)
  show "t_id t1 \<noteq> t_id t2"
    using c1 c2 a(3) t wf_targets_bound[OF wf, of d1 t1] wf_targets_bound[OF wf, of d2 t2]
      wf_targets_unique[OF wf, of d1 t1 d2 t2] by auto
qed

lemma wf_getOrCreateTarget: "wf_db st \<Longrightarrow> wf_db (snd (getOrCreateTarget now st domain))"
proof (cases "js_get (targets st) domain")
  case Undefined
  then have none: "map_of (targets st) domain = None"
    by (simp add: js_get_def split: option.splits)
  assume wf: "wf_db st"
  then have "wf_targets st" by (simp add: wf_db_def)
  from wf_targets_new[OF this none, of "\<lparr>t_id = nextId_target st, t_domain = domain, t_createdAt = now, t_lastScan = None\<rparr>"]
  have "wf_targets (st\<lparr>targets := AList.update domain \<lparr>t_id = nextId_target st, t_domain = domain, t_createdAt = now, t_lastScan = None\<rparr> (targets st), nextId_target := nextId_target st + 1\<rparr>)"
    by simp
  with wf Undefined show ?thesis
    by (simp add: getOrCreateTarget_def Let_def wf_db_def wf_keys_def wf_scripts_def wf_versions_def distinct_update)
qed (simp_all add: getOrCreateTarget_def)

lemma map_of_updateLastScan:
  "map_of (updateLastScan tid ts xs) d = Some t \<Longrightarrow>
     \<exists>t0. map_of xs d = Some t0 \<and> t_id t = t_id t0 \<and> t_domain t = t_domain t0"
  by (induction tid ts xs rule: updateLastScan.induct) (auto split: if_splits)

lemma keys_updateLastScan: "map fst (updateLastScan tid ts xs) = map fst xs"
  by (induction tid ts xs rule: updateLastScan.induct) auto

lemma wf_targets_updateLastScan:
  assumes wf: "wf_targets st"
  shows "wf_targets (st\<lparr>targets := updateLastScan tid ts (targets st)\<rparr>)"
proof (rule wf_targetsI)
  fix d t
  assume "map_of (targets (st\<lparr>targets := updateLastScan tid ts (targets st)\<rparr>)) d = Some t"
  then obtain t0 where "map_of (targets st) d = Some t0" "t_id t = t_id t0" "t_domain t = t_domain t0"
    using map_of_updateLastScan[of tid ts "targets st" d t] by auto
  then show "t_id t < nextId_target (st\<lparr>targets := updateLastScan tid ts (targets st)\<rparr>) \<and> t_domain t = d"
    using wf_targets_bound[OF wf, of d t0] by simp
next
  fix d1 t1 d2 t2
  let ?st = "st\<lparr>targets := updateLastScan tid ts (targets st)\<rparr>"
  assume a: "map_of (targets ?st) d1 = Some t1" "map_of (targets ?st) d2 = Some t2" "d1 \<noteq> d2"
  obtain u1 where u1: "map_of (targets st) d1 = Some u1" "t_id t1 = t_id u1"
    using map_of_updateLastScan[of tid ts "targets st" d1 t1] a(1) by auto
  obtain u2 where u2: "map_of (targets st) d2 = Some u2" "t_id t2 = t_id u2"
    using map_of_updateLastScan[of tid ts "targets st" d2 t2] a(2) by auto
  show "t_id t1 \<noteq> t_id t2" using wf_targets_unique[OF wf u1(1) u2(1) a(3)] u1(2) u2(2) by simp
qed

lemma wf_createScan: "wf_db st \<Longrightarrow> wf_db (snd (createScan now st targetId url n m))"
  using wf_targets_updateLastScan[of st targetId now]
  by (simp add: createScan_def Let_def wf_db_def wf_keys_def wf_scripts_def wf_versions_def
      keys_updateLastScan wf_targets_def)


lemma wf_scriptsI:
  assumes "\<And>k s. map_of (scripts st) k = Some s \<Longrightarrow>
             s_id s < nextId_script st \<and> k = (s_targetId s, s_identifier s)"
    and "\<And>k1 s1 k2 s2. map_of (scripts st) k1 = Some s1 \<Longrightarrow> map_of (scripts st) k2 = Some s2 \<Longrightarrow>
             k1 \<noteq> k2 \<Longrightarrow> s_id s1 \<noteq> s_id s2"
  shows "wf_scripts st"
  unfolding wf_scripts_def using assms by blast

lemma wf_scripts_bound:
  "wf_scripts st \<Longrightarrow> map_of (scripts st) k = Some s \<Longrightarrow>
     s_id s < nextId_script st \<and> k = (s_targetId s, s_identifier s)"
  unfolding wf_scripts_def by blast

lemma wf_scripts_unique:
  "wf_scripts st \<Longrightarrow> map_of (scripts st) k1 = Some s1 \<Longrightarrow> map_of (scripts st) k2 = Some s2 \<Longrightarrow>
     k1 \<noteq> k2 \<Longrightarrow> s_id s1 \<noteq> s_id s2"
  unfolding wf_scripts_def by blast

lemma wf_versionsI:
  assumes "\<And>k vs. map_of (scriptVersions st) k = Some vs \<Longrightarrow>
             k < nextId_script st \<and> distinct (map v_id vs) \<and>
             (\<forall>v \<in> set vs. v_id v < nextId_version st \<and> v_scriptId v = k \<and>
                v_contentFile v = contentPath (scriptsDir st) (v_id v))"
    and "\<And>k1 vs1 k2 vs2 v1 v2. map_of (scriptVersions st) k1 = Some vs1 \<Longrightarrow>
             map_of (scriptVersions st) k2 = Some vs2 \<Longrightarrow> v1 \<in> set vs1 \<Longrightarrow> v2 \<in> set vs2 \<Longrightarrow>
             k1 \<noteq> k2 \<Longrightarrow> v_id v1 \<noteq> v_id v2"
  shows "wf_versions st"
  unfolding wf_versions_def using assms by blast

lemma wf_versions_list:
  "wf_versions st \<Longrightarrow> map_of (scriptVersions st) k = Some vs \<Longrightarrow>
     k < nextId_script st \<and> distinct (map v_id vs)"
  unfolding wf_versions_def by blast

lemma wf_versions_entry:
  "wf_versions st \<Longrightarrow> map_of (scriptVersions st) k = Some vs \<Longrightarrow> v \<in> set vs \<Longrightarrow>
     v_id v < nextId_version st \<and> v_scriptId v = k \<and>
     v_contentFile v = contentPath (scriptsDir st) (v_id v)"
  unfolding wf_versions_def by blast

lemma wf_versions_unique:
  "wf_versions st \<Longrightarrow> map_of (scriptVersions st) k1 = Some vs1 \<Longrightarrow>
     map_of (scriptVersions st) k2 = Some vs2 \<Longrightarrow> v1 \<in> set vs1 \<Longrightarrow> v2 \<in> set vs2 \<Longrightarrow>
     k1 \<noteq> k2 \<Longrightarrow> v_id v1 \<noteq> v_id v2"
  unfolding wf_versions_def by blast

text \<open>Step 1 of storeScript.\<close>

lemma resolveScript_frame:
  assumes "resolveScript now st tid sd ni = (script, b, st1)"
  shows "scriptVersions st1 = scriptVersions st \<and> nextId_version st1 = nextId_version st \<and>
         scriptsDir st1 = scriptsDir st \<and> files st1 = files st \<and> targets st1 = targets st \<and>
         scans st1 = scans st \<and> nextId_target st1 = nextId_target st \<and>
         nextId_scan st1 = nextId_scan st \<and> nextId_script st \<le> nextId_script st1 \<and>
         map_of (scripts st1) (tid, n_identifier ni) = Some script \<and>
         b = (map_of (scripts st) (tid, n_identifier ni) = None) \<and>
         (b \<longrightarrow> s_id script = nextId_script st) \<and>
         (\<forall>s. map_of (scripts st) (tid, n_identifier ni) = Some s \<longrightarrow> s_id script = s_id s)"
  using assms
  by (auto simp: resolveScript_def Let_def update_conv' split: option.splits)

lemma resolveScript_wf_scripts:
  assumes wf: "wf_scripts st" and r: "resolveScript now st tid sd ni = (script, b, st1)"
  shows "wf_scripts st1"
proof (cases "map_of (scripts st) (tid, n_identifier ni)")
  case None
  let ?new = "\<lparr>s_id = nextId_script st, s_targetId = tid, s_url = sd_url sd,
               s_normalizedUrl = n_normalized ni, s_identifier = n_identifier ni,
               s_baseName = n_filename ni, s_firstSeen = now, s_lastSeen = now\<rparr>"
  from None r have st1: "st1 = st\<lparr>nextId_script := nextId_script st + 1,
       scripts := AList.update (tid, n_identifier ni) ?new (scripts st)\<rparr>"
    by (auto simp: resolveScript_def Let_def)
  have cases: "\<And>k s. map_of (scripts st1) k = Some s \<Longrightarrow>
      (k = (tid, n_identifier ni) \<and> s = ?new) \<or> (k \<noteq> (tid, n_identifier ni) \<and> map_of (scripts st) k = Some s)"
    by (simp add: st1 update_conv' split: if_splits)
  show ?thesis
  proof (rule wf_scriptsI)
    fix k s assume "map_of (scripts st1) k = Some s"
    from cases[OF this] show "s_id s < nextId_script st1 \<and> k = (s_targetId s, s_identifier s)"
      using wf_scripts_bound[OF wf, of k s] by (auto simp: st1)
  next
    fix k1 s1 k2 s2
    assume a: "map_of (scripts st1) k1 = Some s1" "map_of (scripts st1) k2 = Some s2" "k1 \<noteq> k2"
    show "s_id s1 \<noteq> s_id s2"
      using cases[OF a(1)] cases[OF a(2)] a(3) wf_scripts_bound[OF wf, of k1 s1]
        wf_scripts_bound[OF wf, of k2 s2] wf_scripts_unique[OF wf, of k1 s1 k2 s2]
      by auto
  qed
next
  case (Some found)
  from Some r have st1: "st1 = st\<lparr>scripts := AList.update (tid, n_identifier ni)
       (found\<lparr>s_lastSeen := now\<rparr>) (scripts st)\<rparr>"
    by (auto simp: resolveScript_def Let_def)
  have cases: "\<And>k s. map_of (scripts st1) k = Some s \<Longrightarrow>
      \<exists>s0. map_of (scripts st) k = Some s0 \<and> s_id s = s_id s0 \<and> s_targetId s = s_targetId s0 \<and>
         s_identifier s = s_identifier s0"
    using Some by (auto simp: st1 update_conv' split: if_splits)
  show ?thesis
  proof (rule wf_scriptsI)
    fix k s assume "map_of (scripts st1) k = Some s"
    from cases[OF this] obtain s0 where "map_of (scripts st) k = Some s0" "s_id s = s_id s0"
      "s_targetId s = s_targetId s0" "s_identifier s = s_identifier s0" by blast
    then show "s_id s < nextId_script st1 \<and> k = (s_targetId s, s_identifier s)"
      using wf_scripts_bound[OF wf, of k s0] by (simp add: st1)
  next
    fix k1 s1 k2 s2
    assume a: "map_of (scripts st1) k1 = Some s1" "map_of (scripts st1) k2 = Some s2" "k1 \<noteq> k2"
    from cases[OF a(1)] obtain u1 where u1: "map_of (scripts st) k1 = Some u1" "s_id s1 = s_id u1" by blast
    from cases[OF a(2)] obtain u2 where u2: "map_of (scripts st) k2 = Some u2" "s_id s2 = s_id u2" by blast
    show "s_id s1 \<noteq> s_id s2"
      using wf_scripts_unique[OF wf u1(1) u2(1) a(3)] u1(2) u2(2) by simp
  qed
qed

lemma resolveScript_id_bound:
  assumes wf: "wf_scripts st" and r: "resolveScript now st tid sd ni = (script, b, st1)"
  shows "s_id script < nextId_script st1"
  using wf_scripts_bound[OF resolveScript_wf_scripts[OF wf r], of "(tid, n_identifier ni)" script]
    resolveScript_frame[OF r] by simp

lemma resolveScript_keys:
  assumes "resolveScript now st tid sd ni = (script, b, st1)" "distinct (map fst (scripts st))"
  shows "distinct (map fst (scripts st1))"
  using assms
  by (auto simp: resolveScript_def Let_def distinct_update split: option.splits)


lemma wf_versions_mono:
  assumes wf: "wf_versions st" and "scriptVersions st1 = scriptVersions st"
    "nextId_version st1 = nextId_version st" "scriptsDir st1 = scriptsDir st"
    "nextId_script st \<le> nextId_script st1"
  shows "wf_versions st1"
  using assms unfolding wf_versions_def by (simp; meson less_le_trans)

lemma resolveScript_wf:
  assumes wf: "wf_db st" and r: "resolveScript now st tid sd ni = (script, b, st1)"
  shows "wf_db st1"
proof -
  note f = resolveScript_frame[OF r]
  have "wf_keys st1" using wf f resolveScript_keys[OF r] by (simp add: wf_db_def wf_keys_def)
  moreover have "wf_targets st1" using wf f by (simp add: wf_db_def wf_targets_def)
  moreover have "wf_scripts st1" using wf resolveScript_wf_scripts[OF _ r] by (simp add: wf_db_def)
  moreover have "wf_versions st1" using wf wf_versions_mono[of st st1] f by (simp add: wf_db_def)
  ultimately show ?thesis by (simp add: wf_db_def)
qed

text \<open>Step 2.\<close>

lemma ensureVersionList_lookup:
  "map_of (scriptVersions (ensureVersionList st k)) k = Some (versionsOf st k)"
  by (simp add: ensureVersionList_def versionsOf_def update_conv' split: option.splits)

lemma ensureVersionList_other:
  "k' \<noteq> k \<Longrightarrow> map_of (scriptVersions (ensureVersionList st k)) k' = map_of (scriptVersions st) k'"
  by (simp add: ensureVersionList_def update_conv' split: option.splits)

lemma ensureVersionList_versionsOf:
  "versionsOf (ensureVersionList st k) k' = versionsOf st k'"
  by (simp add: ensureVersionList_def versionsOf_def update_conv' split: option.splits)

lemma ensureVersionList_frame:
  "scripts (ensureVersionList st k) = scripts st \<and> targets (ensureVersionList st k) = targets st \<and>
   scans (ensureVersionList st k) = scans st \<and> files (ensureVersionList st k) = files st \<and>
   scriptsDir (ensureVersionList st k) = scriptsDir st \<and>
   nextId_target (ensureVersionList st k) = nextId_target st \<and>
   nextId_scan (ensureVersionList st k) = nextId_scan st \<and>
   nextId_script (ensureVersionList st k) = nextId_script st \<and>
   nextId_version (ensureVersionList st k) = nextId_version st"
  by (simp add: ensureVersionList_def split: option.splits)

lemma ensureVersionList_cases:
  "map_of (scriptVersions (ensureVersionList st k)) k' = Some vs \<Longrightarrow>
     map_of (scriptVersions st) k' = Some vs \<or> (k' = k \<and> vs = [])"
  by (auto simp: ensureVersionList_def update_conv' split: option.splits if_splits)

lemma ensureVersionList_wf:
  assumes wf: "wf_db st" and k: "k < nextId_script st"
  shows "wf_db (ensureVersionList st k)"
proof -
  let ?st = "ensureVersionList st k"
  note f = ensureVersionList_frame[of st k]
  from wf have wv: "wf_versions st" by (simp add: wf_db_def)
  have "wf_keys ?st" using wf by (simp add: wf_db_def wf_keys_def ensureVersionList_def distinct_update split: option.splits)
  moreover have "wf_targets ?st" using wf f by (simp add: wf_db_def wf_targets_def)
  moreover have "wf_scripts ?st" using wf f by (simp add: wf_db_def wf_scripts_def)
  moreover have "wf_versions ?st"
  proof (rule wf_versionsI)
    fix k' vs assume "map_of (scriptVersions ?st) k' = Some vs"
    from ensureVersionList_cases[OF this]
    show "k' < nextId_script ?st \<and> distinct (map v_id vs) \<and>
             (\<forall>v \<in> set vs. v_id v < nextId_version ?st \<and> v_scriptId v = k' \<and>
                v_contentFile v = contentPath (scriptsDir ?st) (v_id v))"
      using wf_versions_list[OF wv, of k' vs] wf_versions_entry[OF wv, of k' vs] k f by auto
  next
    fix k1 vs1 k2 vs2 v1 v2
    assume a: "map_of (scriptVersions ?st) k1 = Some vs1" "map_of (scriptVersions ?st) k2 = Some vs2"
      "v1 \<in> set vs1" "v2 \<in> set vs2" "k1 \<noteq> k2"
    show "v_id v1 \<noteq> v_id v2"
      using ensureVersionList_cases[OF a(1)] ensureVersionList_cases[OF a(2)] a(3,4,5)
        wf_versions_unique[OF wv, of k1 vs1 k2 vs2 v1 v2] by auto
  qed
  ultimately show ?thesis by (simp add: wf_db_def)
qed


text \<open>Step 3, when the hash is new.\<close>

lemma appendVersion_wf:
  assumes wf: "wf_db st" and vs: "map_of (scriptVersions st) k = Some vs"
    and v: "v_id v = nextId_version st" "v_scriptId v = k"
      "v_contentFile v = contentPath (scriptsDir st) (nextId_version st)"
  shows "wf_db (st\<lparr>nextId_version := nextId_version st + 1, files := fs,
                  scriptVersions := AList.update k (vs @ [v]) (scriptVersions st)\<rparr>)"
proof -
  let ?st = "st\<lparr>nextId_version := nextId_version st + 1, files := fs,
                  scriptVersions := AList.update k (vs @ [v]) (scriptVersions st)\<rparr>"
  from wf have wv: "wf_versions st" by (simp add: wf_db_def)
  have cases: "\<And>k' vs'. map_of (scriptVersions ?st) k' = Some vs' \<Longrightarrow>
      (k' = k \<and> vs' = vs @ [v]) \<or> (k' \<noteq> k \<and> map_of (scriptVersions st) k' = Some vs')"
    by (simp add: update_conv' split: if_splits)
  have old: "\<And>k' vs' v'. map_of (scriptVersions st) k' = Some vs' \<Longrightarrow> v' \<in> set vs' \<Longrightarrow>
      v_id v' < nextId_version st \<and> v_scriptId v' = k' \<and>
      v_contentFile v' = contentPath (scriptsDir st) (v_id v')"
    using wf_versions_entry[OF wv] by blast
  have "wf_keys ?st" using wf by (simp add: wf_db_def wf_keys_def distinct_update)
  moreover have "wf_targets ?st" using wf by (simp add: wf_db_def wf_targets_def)
  moreover have "wf_scripts ?st" using wf by (simp add: wf_db_def wf_scripts_def)
  moreover have "wf_versions ?st"
  proof (rule wf_versionsI)
    fix k' vs' assume m: "map_of (scriptVersions ?st) k' = Some vs'"
    show "k' < nextId_script ?st \<and> distinct (map v_id vs') \<and>
             (\<forall>v \<in> set vs'. v_id v < nextId_version ?st \<and> v_scriptId v = k' \<and>
                v_contentFile v = contentPath (scriptsDir ?st) (v_id v))"
    proof (cases "k' = k")
      case True
      with cases[OF m] have eq: "vs' = vs @ [v]" by simp
      have "\<forall>u \<in> set vs. v_id u < nextId_version st" using old[OF vs] by blast
      then have "v_id v \<notin> v_id ` set vs" using v(1) by auto
      then show ?thesis
        using wf_versions_list[OF wv vs] old[OF vs] v True eq by (auto simp: less_Suc_eq)
    next
      case False
      with cases[OF m] have m0: "map_of (scriptVersions st) k' = Some vs'" by simp
      show ?thesis using wf_versions_list[OF wv m0] old[OF m0] by (auto simp: less_Suc_eq)
    qed
  next
    fix k1 vs1 k2 vs2 v1 v2
    assume a: "map_of (scriptVersions ?st) k1 = Some vs1" "map_of (scriptVersions ?st) k2 = Some vs2"
      "v1 \<in> set vs1" "v2 \<in> set vs2" "k1 \<noteq> k2"
    have b: "\<And>k' vs' v'. map_of (scriptVersions ?st) k' = Some vs' \<Longrightarrow> v' \<in> set vs' \<Longrightarrow>
       (k' = k \<and> v' = v) \<or> (\<exists>vs0. map_of (scriptVersions st) k' = Some vs0 \<and> v' \<in> set vs0)"
    proof -
      fix k' vs' v'
      assume m: "map_of (scriptVersions ?st) k' = Some vs'" and i: "v' \<in> set vs'"
      from cases[OF m] show "(k' = k \<and> v' = v) \<or>
          (\<exists>vs0. map_of (scriptVersions st) k' = Some vs0 \<and> v' \<in> set vs0)"
      proof
        assume "k' = k \<and> vs' = vs @ [v]"
        with i vs show ?thesis by auto
      next
        assume "k' \<noteq> k \<and> map_of (scriptVersions st) k' = Some vs'"
        with i show ?thesis by auto
      qed
    qed
    from b[OF a(1) a(3)] b[OF a(2) a(4)] a(5)
    consider (new1) "v1 = v" "\<exists>vs0. map_of (scriptVersions st) k2 = Some vs0 \<and> v2 \<in> set vs0"
      | (new2) "v2 = v" "\<exists>vs0. map_of (scriptVersions st) k1 = Some vs0 \<and> v1 \<in> set vs0"
      | (old) "\<exists>vs0. map_of (scriptVersions st) k1 = Some vs0 \<and> v1 \<in> set vs0"
              "\<exists>vs0. map_of (scriptVersions st) k2 = Some vs0 \<and> v2 \<in> set vs0"
      by blast
    then show "v_id v1 \<noteq> v_id v2"
    proof cases
      case new1
      then obtain vs0 where "map_of (scriptVersions st) k2 = Some vs0" "v2 \<in> set vs0" by blast
      from old[OF this] new1(1) v(1) show ?thesis by simp
    next
      case new2
      then obtain vs0 where "map_of (scriptVersions st) k1 = Some vs0" "v1 \<in> set vs0" by blast
      from old[OF this] new2(1) v(1) show ?thesis by simp
    next
      case old
      then obtain u1 u2 where u: "map_of (scriptVersions st) k1 = Some u1" "v1 \<in> set u1"
        "map_of (scriptVersions st) k2 = Some u2" "v2 \<in> set u2" by blast
      from wf_versions_unique[OF wv u(1) u(3) u(2) u(4) a(5)] show ?thesis .
    qed
  qed
  ultimately show ?thesis by (simp add: wf_db_def)
qed

lemma storeScript_wf:
  assumes wf: "wf_db st"
  shows "wf_db (snd (storeScript h now st tid scanId sd ni))"
proof -
  obtain script b st1 where r: "resolveScript now st tid sd ni = (script, b, st1)"
    by (cases "resolveScript now st tid sd ni") auto
  let ?k = "s_id script"
  let ?st2 = "ensureVersionList st1 ?k"
  have wf1: "wf_db st1" by (rule resolveScript_wf[OF wf r])
  have kb: "?k < nextId_script st1"
    using resolveScript_id_bound[OF _ r] wf by (simp add: wf_db_def)
  have wf2: "wf_db ?st2" by (rule ensureVersionList_wf[OF wf1 kb])
  have look: "map_of (scriptVersions ?st2) ?k = Some (versionsOf ?st2 ?k)"
    by (simp add: ensureVersionList_lookup ensureVersionList_versionsOf)
  show ?thesis
  proof (cases "find (\<lambda>v. v_contentHash v = h (sd_content sd)) (versionsOf ?st2 ?k)")
    case None
    then show ?thesis
      using appendVersion_wf[OF wf2 look, where v = "\<lparr>v_id = nextId_version ?st2, v_scriptId = ?k,
        v_scanId = scanId, v_contentHash = h (sd_content sd),
        v_contentFile = contentPath (scriptsDir ?st2) (nextId_version ?st2),
        v_size = sd_size sd, v_url = sd_url sd, v_timestamp = now\<rparr>"]
      by (simp add: storeScript_def r Let_def)
  next
    case (Some e)
    then show ?thesis using wf2 by (simp add: storeScript_def r Let_def)
  qed
qed


text \<open>Removal only takes entries away.\<close>

lemma wf_db_shrink:
  assumes wf: "wf_db st" and keys: "wf_keys st'"
    and t: "\<And>d x. map_of (targets st') d = Some x \<Longrightarrow> map_of (targets st) d = Some x"
    and s: "\<And>k x. map_of (scripts st') k = Some x \<Longrightarrow> map_of (scripts st) k = Some x"
    and v: "\<And>k x. map_of (scriptVersions st') k = Some x \<Longrightarrow> map_of (scriptVersions st) k = Some x"
    and n: "nextId_target st' = nextId_target st" "nextId_script st' = nextId_script st"
      "nextId_version st' = nextId_version st" "scriptsDir st' = scriptsDir st"
  shows "wf_db st'"
proof -
  from wf have wt: "wf_targets st" and ws: "wf_scripts st" and wv: "wf_versions st"
    by (simp_all add: wf_db_def)
  have "wf_targets st'"
  proof (rule wf_targetsI)
    fix d x assume "map_of (targets st') d = Some x"
    from wf_targets_bound[OF wt t[OF this]] show "t_id x < nextId_target st' \<and> t_domain x = d"
      by (simp add: n)
  next
    fix d1 t1 d2 t2
    assume "map_of (targets st') d1 = Some t1" "map_of (targets st') d2 = Some t2" "d1 \<noteq> d2"
    then show "t_id t1 \<noteq> t_id t2"
      using wf_targets_unique[OF wt t t] by blast
  qed
  moreover have "wf_scripts st'"
  proof (rule wf_scriptsI)
    fix k x assume "map_of (scripts st') k = Some x"
    from wf_scripts_bound[OF ws s[OF this]]
    show "s_id x < nextId_script st' \<and> k = (s_targetId x, s_identifier x)" by (simp add: n)
  next
    fix k1 s1 k2 s2
    assume "map_of (scripts st') k1 = Some s1" "map_of (scripts st') k2 = Some s2" "k1 \<noteq> k2"
    then show "s_id s1 \<noteq> s_id s2"
      using wf_scripts_unique[OF ws s s] by blast
  qed
  moreover have "wf_versions st'"
  proof (rule wf_versionsI)
    fix k vs assume m: "map_of (scriptVersions st') k = Some vs"
    show "k < nextId_script st' \<and> distinct (map v_id vs) \<and>
             (\<forall>v \<in> set vs. v_id v < nextId_version st' \<and> v_scriptId v = k \<and>
                v_contentFile v = contentPath (scriptsDir st') (v_id v))"
      using wf_versions_list[OF wv v[OF m]] wf_versions_entry[OF wv v[OF m]] by (simp add: n)
  next
    fix k1 vs1 k2 vs2 v1 v2
    assume a: "map_of (scriptVersions st') k1 = Some vs1" "map_of (scriptVersions st') k2 = Some vs2"
      "v1 \<in> set vs1" "v2 \<in> set vs2" "k1 \<noteq> k2"
    from wf_versions_unique[OF wv v[OF a(1)] v[OF a(2)] a(3) a(4) a(5)]
    show "v_id v1 \<noteq> v_id v2" .
  qed
  ultimately show ?thesis using keys by (simp add: wf_db_def)
qed

lemma removeScriptOf_frame:
  "targets (removeScriptOf tid st e) = targets st \<and> scans (removeScriptOf tid st e) = scans st \<and>
   nextId_target (removeScriptOf tid st e) = nextId_target st \<and>
   nextId_scan (removeScriptOf tid st e) = nextId_scan st \<and>
   nextId_script (removeScriptOf tid st e) = nextId_script st \<and>
   nextId_version (removeScriptOf tid st e) = nextId_version st \<and>
   scriptsDir (removeScriptOf tid st e) = scriptsDir st"
  by (simp add: removeScriptOf_def split: option.splits)

lemma removeScriptOf_wf:
  assumes wf: "wf_db st"
  shows "wf_db (removeScriptOf tid st e)"
proof (rule wf_db_shrink[OF wf])
  show "wf_keys (removeScriptOf tid st e)"
    using wf by (simp add: wf_db_def wf_keys_def removeScriptOf_def distinct_delete split: option.splits)
next
  fix k x assume "map_of (scripts (removeScriptOf tid st e)) k = Some x"
  then show "map_of (scripts st) k = Some x"
    by (simp add: removeScriptOf_def delete_conv' split: option.splits if_splits)
next
  fix k x assume "map_of (scriptVersions (removeScriptOf tid st e)) k = Some x"
  then show "map_of (scriptVersions st) k = Some x"
    by (simp add: removeScriptOf_def delete_conv' split: option.splits if_splits)
qed (simp_all add: removeScriptOf_frame)

lemma foldl_removeScriptOf_wf:
  "wf_db st \<Longrightarrow> wf_db (foldl (removeScriptOf tid) st es)"
  by (induction es arbitrary: st) (simp_all add: removeScriptOf_wf)

lemma foldl_removeScriptOf_frame:
  "targets (foldl (removeScriptOf tid) st es) = targets st \<and>
   scans (foldl (removeScriptOf tid) st es) = scans st \<and>
   nextId_target (foldl (removeScriptOf tid) st es) = nextId_target st \<and>
   nextId_scan (foldl (removeScriptOf tid) st es) = nextId_scan st \<and>
   nextId_script (foldl (removeScriptOf tid) st es) = nextId_script st \<and>
   nextId_version (foldl (removeScriptOf tid) st es) = nextId_version st \<and>
   scriptsDir (foldl (removeScriptOf tid) st es) = scriptsDir st"
  by (induction es arbitrary: st) (simp_all add: removeScriptOf_frame)

lemma removeTarget_wf:
  assumes wf: "wf_db st"
  shows "wf_db (snd (removeTarget st domain))"
proof (cases "js_get (targets st) domain")
  case (Own t)
  let ?st1 = "foldl (removeScriptOf (t_id t)) st (scripts st)"
  let ?st2 = "?st1\<lparr>scans := filter (\<lambda>s. sc_targetId s \<noteq> t_id t) (scans ?st1),
                   targets := AList.delete domain (targets ?st1)\<rparr>"
  have wf1: "wf_db ?st1" by (rule foldl_removeScriptOf_wf[OF wf])
  have "wf_db ?st2"
  proof (rule wf_db_shrink[OF wf1])
    show "wf_keys ?st2" using wf1 by (simp add: wf_db_def wf_keys_def distinct_delete)
  next
    fix d x assume "map_of (targets ?st2) d = Some x"
    then show "map_of (targets ?st1) d = Some x" by (simp add: delete_conv' split: if_splits)
  qed simp_all
  then show ?thesis using Own by (simp add: removeTarget_def Let_def)
qed (simp_all add: removeTarget_def wf)

lemma reachable_wf: "reachable h st \<Longrightarrow> wf_db st"
  by (induction rule: reachable.induct)
    (simp_all add: wf_loadDb wf_getOrCreateTarget wf_createScan storeScript_wf removeTarget_wf wf_files)


subsection \<open>Storing a script\<close>

text \<open>What one call of storeScript returns and leaves behind.\<close>

lemma find_snoc:
  "find P (xs @ [x]) = (case find P xs of None \<Rightarrow> (if P x then Some x else None) | Some y \<Rightarrow> Some y)"
  by (induction xs) auto

lemma find_Some_mem: "find P xs = Some x \<Longrightarrow> x \<in> set xs \<and> P x"
  by (induction xs) (auto split: if_splits)

lemma versionsOf_cong: "scriptVersions st1 = scriptVersions st \<Longrightarrow> versionsOf st1 k = versionsOf st k"
  by (simp add: versionsOf_def)

lemma resolveScript_versionsOf:
  assumes r: "resolveScript now st tid sd ni = (script, b, st1)"
  shows "versionsOf (ensureVersionList st1 k) k' = versionsOf st k'"
  using resolveScript_frame[OF r] versionsOf_cong[of st1 st k']
  by (simp add: ensureVersionList_versionsOf)

lemma storeScript_known_hash:
  assumes r: "resolveScript now st tid sd ni = (script, b, st1)"
    and f: "find (\<lambda>v. v_contentHash v = h (sd_content sd)) (versionsOf st (s_id script)) = Some e"
    and s: "storeScript h now st tid scanId sd ni = (res, st')"
  shows "res = \<lparr>r_scriptId = s_id script, r_versionId = v_id e, r_isNewScript = b,
                r_isNewVersion = False, r_contentHash = h (sd_content sd)\<rparr> \<and>
         st' = ensureVersionList st1 (s_id script)"
proof -
  have "versionsOf (ensureVersionList st1 (s_id script)) (s_id script) = versionsOf st (s_id script)"
    by (rule resolveScript_versionsOf[OF r])
  with f s show ?thesis by (auto simp: storeScript_def r Let_def)
qed

lemma storeScript_new_hash:
  assumes r: "resolveScript now st tid sd ni = (script, b, st1)"
    and f: "find (\<lambda>v. v_contentHash v = h (sd_content sd)) (versionsOf st (s_id script)) = None"
    and s: "storeScript h now st tid scanId sd ni = (res, st')"
  shows "res = \<lparr>r_scriptId = s_id script, r_versionId = nextId_version st, r_isNewScript = b,
                r_isNewVersion = True, r_contentHash = h (sd_content sd)\<rparr> \<and>
         st' = (ensureVersionList st1 (s_id script))
                 \<lparr>nextId_version := nextId_version st + 1,
                  files := (files st)(contentPath (scriptsDir st) (nextId_version st) \<mapsto> sd_content sd),
                  scriptVersions := AList.update (s_id script)
                    (versionsOf st (s_id script) @
                      [\<lparr>v_id = nextId_version st, v_scriptId = s_id script, v_scanId = scanId,
                        v_contentHash = h (sd_content sd),
                        v_contentFile = contentPath (scriptsDir st) (nextId_version st),
                        v_size = sd_size sd, v_url = sd_url sd, v_timestamp = now\<rparr>])
                    (scriptVersions (ensureVersionList st1 (s_id script)))\<rparr>"
proof -
  have "versionsOf (ensureVersionList st1 (s_id script)) (s_id script) = versionsOf st (s_id script)"
    by (rule resolveScript_versionsOf[OF r])
  with f s show ?thesis
    using resolveScript_frame[OF r] ensureVersionList_frame[of st1 "s_id script"]
    by (auto simp: storeScript_def r Let_def)
qed


lemma versionsOf_bound:
  assumes wf: "wf_db st" and e: "e \<in> set (versionsOf st k)"
  shows "v_id e < nextId_version st"
proof (cases "map_of (scriptVersions st) k")
  case None
  with e show ?thesis by (simp add: versionsOf_def)
next
  case (Some vs)
  with e have "e \<in> set vs" by (simp add: versionsOf_def)
  from wf_versions_entry[OF _ Some this] wf show ?thesis by (simp add: wf_db_def)
qed

lemma versionsOf_distinct:
  assumes wf: "wf_db st"
  shows "distinct (map v_id (versionsOf st k))"
proof (cases "map_of (scriptVersions st) k")
  case None
  then show ?thesis by (simp add: versionsOf_def)
next
  case (Some vs)
  from wf_versions_list[OF _ Some] wf show ?thesis by (simp add: wf_db_def versionsOf_def Some)
qed

lemma versionsOf_fresh_script:
  assumes wf: "wf_db st"
  shows "versionsOf st (nextId_script st) = []"
proof (cases "map_of (scriptVersions st) (nextId_script st)")
  case None
  then show ?thesis by (simp add: versionsOf_def)
next
  case (Some vs)
  from wf_versions_list[OF _ Some] wf show ?thesis by (simp add: wf_db_def)
qed

text \<open>After a call, the script is registered under its key; its list holds a version with the
  stored hash, the first such version carries the returned id, and that id is below the counter.\<close>

lemma storeScript_post:
  assumes wf: "wf_db st" and s: "storeScript h now st tid scanId sd ni = (res, st')"
  shows "\<exists>script e. map_of (scripts st') (tid, n_identifier ni) = Some script \<and>
           s_id script = r_scriptId res \<and>
           find (\<lambda>v. v_contentHash v = h (sd_content sd)) (versionsOf st' (r_scriptId res)) = Some e \<and>
           v_id e = r_versionId res \<and>
           (r_isNewVersion res \<longleftrightarrow>
              find (\<lambda>v. v_contentHash v = h (sd_content sd)) (versionsOf st (r_scriptId res)) = None)"
proof -
  obtain script b st1 where r: "resolveScript now st tid sd ni = (script, b, st1)"
    by (cases "resolveScript now st tid sd ni") auto
  let ?k = "s_id script"
  let ?P = "\<lambda>v. v_contentHash v = h (sd_content sd)"
  note f = resolveScript_frame[OF r] ensureVersionList_frame[of st1 ?k]
  show ?thesis
  proof (cases "find ?P (versionsOf st ?k)")
    case None
    note n = storeScript_new_hash[OF r None s]
    let ?v = "\<lparr>v_id = nextId_version st, v_scriptId = ?k, v_scanId = scanId,
                v_contentHash = h (sd_content sd),
                v_contentFile = contentPath (scriptsDir st) (nextId_version st),
                v_size = sd_size sd, v_url = sd_url sd, v_timestamp = now\<rparr>"
    have "versionsOf st' ?k = versionsOf st ?k @ [?v]"
      using n by (simp add: versionsOf_def update_conv')
    then have "find ?P (versionsOf st' ?k) = Some ?v"
      using None by (simp add: find_snoc)
    moreover have "map_of (scripts st') (tid, n_identifier ni) = Some script"
      using n f by simp
    ultimately show ?thesis using n None by auto
  next
    case (Some e)
    note n = storeScript_known_hash[OF r Some s]
    have "versionsOf st' ?k = versionsOf st ?k"
      using n resolveScript_versionsOf[OF r] by simp
    moreover have "map_of (scripts st') (tid, n_identifier ni) = Some script"
      using n f by simp
    ultimately show ?thesis using n Some by auto
  qed
qed

lemma storeScript_known_script:
  assumes m: "map_of (scripts st) (tid, n_identifier ni) = Some script"
  shows "r_scriptId (fst (storeScript h now st tid scanId sd ni)) = s_id script \<and>
         \<not> r_isNewScript (fst (storeScript h now st tid scanId sd ni)) \<and>
         r_versionId (fst (storeScript h now st tid scanId sd ni)) =
           (case find (\<lambda>v. v_contentHash v = h (sd_content sd)) (versionsOf st (s_id script)) of
              None \<Rightarrow> nextId_version st | Some e \<Rightarrow> v_id e) \<and>
         r_isNewVersion (fst (storeScript h now st tid scanId sd ni)) =
           (find (\<lambda>v. v_contentHash v = h (sd_content sd)) (versionsOf st (s_id script)) = None)"
proof -
  let ?script = "script\<lparr>s_lastSeen := now\<rparr>"
  obtain st1 where r: "resolveScript now st tid sd ni = (?script, False, st1)"
    using m by (simp add: resolveScript_def Let_def)
  obtain res st' where s: "storeScript h now st tid scanId sd ni = (res, st')"
    by (cases "storeScript h now st tid scanId sd ni") auto
  show ?thesis
  proof (cases "find (\<lambda>v. v_contentHash v = h (sd_content sd)) (versionsOf st (s_id script))")
    case None
    then have "find (\<lambda>v. v_contentHash v = h (sd_content sd)) (versionsOf st (s_id ?script)) = None"
      by simp
    from storeScript_new_hash[OF r this s] None s show ?thesis by simp
  next
    case (Some e)
    then have "find (\<lambda>v. v_contentHash v = h (sd_content sd)) (versionsOf st (s_id ?script)) = Some e"
      by simp
    from storeScript_known_hash[OF r this s] Some s show ?thesis by simp
  qed
qed


text \<open>
  Claim C10. In every store the operations can build, a call of \<open>storeScript\<close> that
  creates the script record (\<open>isNewScript\<close>) also creates a version (\<open>isNewVersion\<close>):
  the new script takes the next script id, no version list is registered under an id the
  counter has not handed out, so the hash is searched in an empty list.
\<close>

theorem storeScript_new_script_new_version:
  assumes "reachable h st"
  shows "r_isNewScript (fst (storeScript h now st tid scanId sd ni)) \<longrightarrow>
         r_isNewVersion (fst (storeScript h now st tid scanId sd ni))"
proof
  assume new: "r_isNewScript (fst (storeScript h now st tid scanId sd ni))"
  from assms have wf: "wf_db st" by (rule reachable_wf)
  obtain script b st1 where r: "resolveScript now st tid sd ni = (script, b, st1)"
    by (cases "resolveScript now st tid sd ni") auto
  obtain res st' where s: "storeScript h now st tid scanId sd ni = (res, st')"
    by (cases "storeScript h now st tid scanId sd ni") auto
  let ?P = "\<lambda>v. v_contentHash v = h (sd_content sd)"
  have b: "b"
  proof (cases "find ?P (versionsOf st (s_id script))")
    case None
    from storeScript_new_hash[OF r None s] new s show ?thesis by simp
  next
    case (Some e)
    from storeScript_known_hash[OF r Some s] new s show ?thesis by simp
  qed
  with resolveScript_frame[OF r] have "s_id script = nextId_script st" by simp
  then have "find ?P (versionsOf st (s_id script)) = None"
    using versionsOf_fresh_script[OF wf] by simp
  from storeScript_new_hash[OF r this s] s
  show "r_isNewVersion (fst (storeScript h now st tid scanId sd ni))" by simp
qed

theorem storeScript_new_script_new_version_witness:
  "reachable (\<lambda>c. c) freshStore \<and>
   r_isNewScript (fst (storeScript (\<lambda>c. c) 1000 freshStore 1 1 mainA mainInfo)) \<and>
   r_isNewVersion (fst (storeScript (\<lambda>c. c) 1000 freshStore 1 1 mainA mainInfo))"
proof -
  have r: "reachable (\<lambda>c. c) freshStore"
    unfolding freshStore_def by (rule reachable.fresh)
  have n: "r_isNewScript (fst (storeScript (\<lambda>c. c) 1000 freshStore 1 1 mainA mainInfo))"
    by (simp add: storeScript_def resolveScript_def ensureVersionList_def versionsOf_def
        freshStore_def loadDb_def Let_def mainA_def mainInfo_def)
  from storeScript_new_script_new_version[OF r, of 1000 1 1 mainA mainInfo] r n
  show ?thesis by simp
qed

lemma find_hash_None:
  "find (\<lambda>v. v_contentHash v = c) vs = None \<longleftrightarrow> c \<notin> v_contentHash ` set vs"
  by (induction vs) auto

subsection \<open>Reading versions back\<close>

text \<open>The comparator \<open>(a, b) => b.id - a.id\<close> sorts by falling id.\<close>

lemma insort_cmp_key:
  "insort_cmp (\<lambda>a b. int (f b) - int (f a)) x xs = insort_key (\<lambda>v. - int (f v)) x xs"
  by (induction xs) auto

lemma js_sort_desc: "js_sort (\<lambda>a b. int (f b) - int (f a)) xs = sort_key (\<lambda>v. - int (f v)) xs"
proof -
  have "insort_cmp (\<lambda>a b. int (f b) - int (f a)) = insort_key (\<lambda>v. - int (f v))"
    by (intro ext) (rule insort_cmp_key)
  then show ?thesis by (simp add: js_sort_def sort_key_def)
qed

lemma js_sort_desc_set: "set (js_sort (\<lambda>a b. int (f b) - int (f a)) xs) = set xs"
  by (simp add: js_sort_desc)

lemma js_sort_desc_length: "length (js_sort (\<lambda>a b. int (f b) - int (f a)) xs) = length xs"
  by (simp add: js_sort_desc)

lemma js_sort_desc_strict:
  assumes "distinct (map f xs)"
  shows "sorted_wrt (\<lambda>a b. f b < f a) (js_sort (\<lambda>a b. int (f b) - int (f a)) xs)"
proof -
  let ?ys = "sort_key (\<lambda>v. - int (f v)) xs"
  have s: "sorted_wrt (\<lambda>a b. f b \<le> f a) ?ys"
    using sorted_sort_key[of "\<lambda>v. - int (f v)" xs] by (simp add: sorted_wrt_map)
  have d: "distinct (map f ?ys)"
    using assms by (simp add: distinct_map)
  have "i < j \<Longrightarrow> j < length ?ys \<Longrightarrow> f (?ys ! j) < f (?ys ! i)" for i j
  proof -
    assume ij: "i < j" "j < length ?ys"
    then have "f (?ys ! j) \<le> f (?ys ! i)" using s by (simp add: sorted_wrt_iff_nth_less)
    moreover have "f (?ys ! j) \<noteq> f (?ys ! i)"
      using d ij nth_eq_iff_index_eq[of "map f ?ys" j i] by simp
    ultimately show ?thesis by simp
  qed
  then show ?thesis by (simp add: js_sort_desc sorted_wrt_iff_nth_less)
qed

lemma findIndex_Some:
  "findIndex P xs = Some i \<Longrightarrow> i < length xs \<and> P (xs ! i)"
  by (induction xs arbitrary: i) (auto split: if_splits)

lemma findIndex_None: "findIndex P xs = None \<longleftrightarrow> (\<forall>x \<in> set xs. \<not> P x)"
  by (induction xs) auto

text \<open>In a list of strictly falling ids, the entry after a position is the version with
  the next smaller id.\<close>

lemma falling_next:
  fixes f :: "'a \<Rightarrow> nat"
  assumes s: "sorted_wrt (\<lambda>a b. f b < f a) ys" and i: "i < length ys"
    and p: "p \<in> set ys" "f p < f (ys ! i)" "\<forall>q \<in> set ys. f q < f (ys ! i) \<longrightarrow> f q \<le> f p"
  shows "Suc i < length ys \<and> ys ! Suc i = p"
proof -
  from p(1) obtain j where j: "j < length ys" "ys ! j = p" by (auto simp: in_set_conv_nth)
  have lt: "\<And>a b. a < b \<Longrightarrow> b < length ys \<Longrightarrow> f (ys ! b) < f (ys ! a)"
    using s by (simp add: sorted_wrt_iff_nth_less)
  have "i < j"
  proof (rule ccontr)
    assume "\<not> i < j"
    then have "j = i \<or> j < i" by auto
    then show False using lt[of j i] i j p(2) by auto
  qed
  then have si: "Suc i < length ys" using j by simp
  have "f (ys ! Suc i) < f (ys ! i)" using lt[of i "Suc i"] si by simp
  then have le: "f (ys ! Suc i) \<le> f p" using p(3) si by simp
  have "j = Suc i"
  proof (rule ccontr)
    assume "j \<noteq> Suc i"
    with \<open>i < j\<close> have "Suc i < j" by simp
    from lt[OF this j(1)] le j(2) show False by simp
  qed
  with j si show ?thesis by simp
qed

lemma falling_last:
  fixes f :: "'a \<Rightarrow> nat"
  assumes s: "sorted_wrt (\<lambda>a b. f b < f a) ys" and i: "i < length ys"
    and m: "\<forall>q \<in> set ys. f (ys ! i) \<le> f q"
  shows "i = length ys - 1"
proof (rule ccontr)
  assume "i \<noteq> length ys - 1"
  with i have si: "Suc i < length ys" by simp
  then have "f (ys ! Suc i) < f (ys ! i)" using s by (simp add: sorted_wrt_iff_nth_less)
  moreover have "f (ys ! i) \<le> f (ys ! Suc i)" using m si by simp
  ultimately show False by simp
qed

lemma getPreviousVersion_oldest:
  assumes d: "distinct (map v_id (versionsOf st sid))"
    and c: "cur \<in> v_id ` set (versionsOf st sid)"
    and m: "\<forall>q \<in> set (versionsOf st sid). cur \<le> v_id q"
  shows "getPreviousVersion st sid cur = None"
proof -
  let ?ys = "js_sort (\<lambda>a b. int (v_id b) - int (v_id a)) (versionsOf st sid)"
  have set: "set ?ys = set (versionsOf st sid)" by (rule js_sort_desc_set)
  from c have "findIndex (\<lambda>v. v_id v = cur) ?ys \<noteq> None"
    by (auto simp: findIndex_None set)
  then obtain i where i: "findIndex (\<lambda>v. v_id v = cur) ?ys = Some i" by auto
  from findIndex_Some[OF i] have il: "i < length ?ys" and ic: "v_id (?ys ! i) = cur" by simp_all
  have "i = length ?ys - 1"
    using falling_last[OF js_sort_desc_strict[OF d] il] m ic set by simp
  with i show ?thesis by (simp add: getPreviousVersion_def Let_def)
qed

lemma getPreviousVersion_previous:
  assumes d: "distinct (map v_id (versionsOf st sid))"
    and c: "cur \<in> v_id ` set (versionsOf st sid)"
    and p: "p \<in> set (versionsOf st sid)" "v_id p < cur"
      "\<forall>q \<in> set (versionsOf st sid). v_id q < cur \<longrightarrow> v_id q \<le> v_id p"
  shows "getPreviousVersion st sid cur =
           (if v_contentFile p \<noteq> []
            then (case files st (v_contentFile p) of
                    Some content \<Rightarrow> Some (p, content) | None \<Rightarrow> None)
            else None)"
proof -
  let ?ys = "js_sort (\<lambda>a b. int (v_id b) - int (v_id a)) (versionsOf st sid)"
  have set: "set ?ys = set (versionsOf st sid)" by (rule js_sort_desc_set)
  from c have "findIndex (\<lambda>v. v_id v = cur) ?ys \<noteq> None"
    by (auto simp: findIndex_None set)
  then obtain i where i: "findIndex (\<lambda>v. v_id v = cur) ?ys = Some i" by auto
  from findIndex_Some[OF i] have il: "i < length ?ys" and ic: "v_id (?ys ! i) = cur" by simp_all
  have "Suc i < length ?ys \<and> ?ys ! Suc i = p"
    using falling_next[OF js_sort_desc_strict[OF d] il, of p] p ic set by simp
  then have "i \<noteq> length ?ys - 1" "?ys ! (i + 1) = p" by auto
  with i show ?thesis by (simp add: getPreviousVersion_def Let_def)
qed

lemma contentPath_nonempty: "contentPath dir n \<noteq> []"
  by (simp add: contentPath_def)

lemma versionsOf_contentFile:
  assumes wf: "wf_db st" and e: "e \<in> set (versionsOf st k)"
  shows "v_contentFile e = contentPath (scriptsDir st) (v_id e)"
proof (cases "map_of (scriptVersions st) k")
  case None
  with e show ?thesis by (simp add: versionsOf_def)
next
  case (Some vs)
  with e have "e \<in> set vs" by (simp add: versionsOf_def)
  from wf_versions_entry[OF _ Some this] wf show ?thesis by (simp add: wf_db_def)
qed

lemma findVersion_Some:
  "findVersion vid xs = Some u \<Longrightarrow> \<exists>k vs. (k, vs) \<in> set xs \<and> u \<in> set vs \<and> v_id u = vid"
proof (induction vid xs rule: findVersion.induct)
  case (1 vid)
  then show ?case by simp
next
  case (2 vid key versions rest)
  show ?case
  proof (cases "find (\<lambda>v. v_id v = vid) versions")
    case None
    with 2 show ?thesis by auto
  next
    case (Some w)
    with 2 have "w = u" by simp
    with find_Some_mem[OF Some] show ?thesis by auto
  qed
qed

lemma findVersion_None:
  "findVersion vid xs = None \<Longrightarrow> (k, vs) \<in> set xs \<Longrightarrow> u \<in> set vs \<Longrightarrow> v_id u \<noteq> vid"
  by (induction vid xs rule: findVersion.induct)
     (auto split: option.splits simp: find_None_iff)

lemma findVersion_wf:
  assumes wf: "wf_db st" and v: "v \<in> set (versionsOf st sid)"
  shows "findVersion (v_id v) (sort_key fst (scriptVersions st)) = Some v"
proof -
  from wf have wv: "wf_versions st" and dk: "distinct (map fst (scriptVersions st))"
    by (simp_all add: wf_db_def wf_keys_def)
  from v obtain vs where m: "map_of (scriptVersions st) sid = Some vs" and vv: "v \<in> set vs"
    by (cases "map_of (scriptVersions st) sid") (auto simp: versionsOf_def)
  then have mem: "(sid, vs) \<in> set (sort_key fst (scriptVersions st))"
    by (simp add: map_of_SomeD)
  obtain u where u: "findVersion (v_id v) (sort_key fst (scriptVersions st)) = Some u"
    using findVersion_None[OF _ mem vv, of "v_id v"]
    by (cases "findVersion (v_id v) (sort_key fst (scriptVersions st))") auto
  from findVersion_Some[OF u] obtain k vs' where
    k: "(k, vs') \<in> set (scriptVersions st)" "u \<in> set vs'" "v_id u = v_id v" by auto
  from k(1) dk have m': "map_of (scriptVersions st) k = Some vs'" by simp
  have "k = sid" using wf_versions_unique[OF wv m' m k(2) vv] k(3) by auto
  with m m' have "vs' = vs" by simp
  moreover have "inj_on v_id (set vs)" using wf_versions_list[OF wv m] by (simp add: distinct_map)
  ultimately have "u = v" using k(2,3) vv by (simp add: inj_on_def)
  with u show ?thesis by simp
qed

lemma reachable_twoVersions: "reachable (\<lambda>c. c) twoVersions"
  unfolding twoVersions_def freshStore_def by (intro reachable.store reachable.fresh)

lemmas store_eval = storeScript_def resolveScript_def ensureVersionList_def versionsOf_def
  freshStore_def loadDb_def Let_def mainA_def mainB_def mainInfo_def contentPath_def digit_char_def

lemma versionsOf_twoVersions: "versionsOf twoVersions 1 = [version1, version2]"
  by (simp add: twoVersions_def version1_def version2_def store_eval)

lemma files_twoVersions: "files twoVersions ''data/scripts/1.js'' = Some ''X''"
  by (simp add: twoVersions_def store_eval)

text \<open>
  Claim C3, as the code has it. In a store the operations can build, for a version id
  \<open>cur\<close> of the script: \<open>getPreviousVersion\<close> returns nothing when \<open>cur\<close> is the smallest
  id of the script; otherwise, with \<open>p\<close> the version of the script that has the next
  smaller id, it returns \<open>p\<close> with its content when the content file of \<open>p\<close> exists,
  and nothing when that file is missing. The order is by id; timestamps play no part.
\<close>

theorem getPreviousVersion_next_smaller:
  assumes "reachable h st" and "cur \<in> v_id ` set (versionsOf st sid)"
  shows "((\<forall>q \<in> set (versionsOf st sid). cur \<le> v_id q) \<longrightarrow> getPreviousVersion st sid cur = None) \<and>
         (\<forall>p \<in> set (versionsOf st sid).
            v_id p < cur \<and> (\<forall>q \<in> set (versionsOf st sid). v_id q < cur \<longrightarrow> v_id q \<le> v_id p) \<longrightarrow>
            getPreviousVersion st sid cur =
              (case files st (v_contentFile p) of
                 Some content \<Rightarrow> Some (p, content) | None \<Rightarrow> None))"
proof -
  from assms(1) have wf: "wf_db st" by (rule reachable_wf)
  note d = versionsOf_distinct[OF wf, of sid]
  have "v_contentFile p \<noteq> []" if "p \<in> set (versionsOf st sid)" for p
    using versionsOf_contentFile[OF wf that] by (simp add: contentPath_nonempty)
  then show ?thesis
    using getPreviousVersion_oldest[OF d assms(2)] getPreviousVersion_previous[OF d assms(2)]
    by simp
qed

theorem getPreviousVersion_next_smaller_witness:
  "reachable (\<lambda>c. c) twoVersions \<and> 2 \<in> v_id ` set (versionsOf twoVersions 1) \<and>
   1 \<in> v_id ` set (versionsOf twoVersions 1) \<and>
   getPreviousVersion twoVersions 1 1 = None \<and>
   getPreviousVersion twoVersions 1 2 = Some (version1, ''X'')"
proof -
  note vs = versionsOf_twoVersions
  have i: "1 \<in> v_id ` set (versionsOf twoVersions 1)" "2 \<in> v_id ` set (versionsOf twoVersions 1)"
    using vs by (simp_all add: version1_def version2_def)
  from getPreviousVersion_next_smaller[OF reachable_twoVersions i(1)]
  have a: "getPreviousVersion twoVersions 1 1 = None"
    using vs by (simp add: version1_def version2_def)
  from getPreviousVersion_next_smaller[OF reachable_twoVersions i(2)]
  have b: "getPreviousVersion twoVersions 1 2 = Some (version1, ''X'')"
    using files_twoVersions vs by (simp add: version1_def version2_def)
  from a b i reachable_twoVersions show ?thesis by simp
qed

text \<open>
  Claim C3 as stated fails: the script has versions 1 and 2, version 2 is not the
  oldest, and \<open>getPreviousVersion\<close> still returns nothing, because the content files
  are gone from disk.
\<close>

theorem getPreviousVersion_missing_file_counterexample:
  "map v_id (versionsOf allFilesGone 1) = [1, 2] \<and> getPreviousVersion allFilesGone 1 2 = None"
  by (simp add: allFilesGone_def twoVersions_def getPreviousVersion_def js_sort_def store_eval)

text \<open>
  Claim C8, as the code has it. When the content file of a version is absent,
  \<open>getVersionContent\<close> of its id returns the version record without content, and
  \<open>getPreviousVersion\<close>, asked for the version before any \<open>cur\<close> that this version
  precedes, returns nothing at all.
\<close>

theorem content_missing_reads:
  assumes "reachable h st" and "v \<in> set (versionsOf st sid)" and "files st (v_contentFile v) = None"
  shows "getVersionContent st (v_id v) = Some (v, None) \<and>
         (\<forall>cur \<in> v_id ` set (versionsOf st sid).
            v_id v < cur \<and> (\<forall>q \<in> set (versionsOf st sid). v_id q < cur \<longrightarrow> v_id q \<le> v_id v) \<longrightarrow>
            getPreviousVersion st sid cur = None)"
proof -
  from assms(1) have wf: "wf_db st" by (rule reachable_wf)
  note d = versionsOf_distinct[OF wf, of sid]
  have a: "getVersionContent st (v_id v) = Some (v, None)"
    using findVersion_wf[OF wf assms(2)] assms(3) by (simp add: getVersionContent_def)
  have b: "getPreviousVersion st sid cur = None"
    if "cur \<in> v_id ` set (versionsOf st sid)" "v_id v < cur"
      "\<forall>q \<in> set (versionsOf st sid). v_id q < cur \<longrightarrow> v_id q \<le> v_id v" for cur
    using getPreviousVersion_previous[OF d that(1) assms(2) that(2,3)] assms(3) by simp
  show ?thesis
  proof (intro conjI ballI impI)
    show "getVersionContent st (v_id v) = Some (v, None)" by (rule a)
  next
    fix cur
    assume "cur \<in> v_id ` set (versionsOf st sid)"
      and "v_id v < cur \<and> (\<forall>q \<in> set (versionsOf st sid). v_id q < cur \<longrightarrow> v_id q \<le> v_id v)"
    then show "getPreviousVersion st sid cur = None" using b[of cur] by simp
  qed
qed

lemma reachable_firstFileGone: "reachable (\<lambda>c. c) firstFileGone"
  unfolding firstFileGone_def by (intro reachable.disk reachable_twoVersions)

theorem content_missing_reads_witness:
  "reachable (\<lambda>c. c) firstFileGone \<and> version1 \<in> set (versionsOf firstFileGone 1) \<and>
   files firstFileGone (v_contentFile version1) = None \<and>
   2 \<in> v_id ` set (versionsOf firstFileGone 1) \<and>
   getVersionContent firstFileGone 1 = Some (version1, None) \<and>
   getPreviousVersion firstFileGone 1 2 = None"
proof -
  have vs: "versionsOf firstFileGone 1 = [version1, version2]"
    using versionsOf_twoVersions by (simp add: firstFileGone_def versionsOf_def)
  have f: "files firstFileGone (v_contentFile version1) = None"
    by (simp add: firstFileGone_def version1_def)
  have m: "version1 \<in> set (versionsOf firstFileGone 1)" using vs by simp
  from content_missing_reads[OF reachable_firstFileGone m f] vs f reachable_firstFileGone
  show ?thesis by (simp add: version1_def version2_def)
qed

text \<open>
  Claim C8 as stated fails for \<open>getPreviousVersion\<close>: the record of version 1 exists,
  its content file is absent, and the read of the version before version 2 returns
  nothing instead of the record without content.
\<close>

theorem getPreviousVersion_returns_nothing_counterexample:
  "version1 \<in> set (versionsOf firstFileGone 1) \<and> version2 \<in> set (versionsOf firstFileGone 1) \<and>
   files firstFileGone (v_contentFile version1) = None \<and>
   getPreviousVersion firstFileGone 1 (v_id version2) = None"
  by (simp add: firstFileGone_def twoVersions_def getPreviousVersion_def js_sort_def
      version1_def version2_def store_eval)

text \<open>
  Claim C7 against the code: \<open>getScriptVersions\<close> sorts by timestamp. Two versions
  stored in the same millisecond compare equal, the stable sort keeps them in insertion
  order, and the result lists the older version (id 1) before the newer one (id 2).
\<close>

theorem getScriptVersions_same_timestamp:
  "map v_id (versionsOf sameInstant 1) = [1, 2] \<and>
   map v_timestamp (versionsOf sameInstant 1) = [5000, 5000] \<and>
   map v_id (getScriptVersions sameInstant 1) = [1, 2]"
  by (simp add: sameInstant_def getScriptVersions_def js_sort_def store_eval)

subsection \<open>Removing a target\<close>

lemma string_of_nat_nonempty: "string_of_nat n \<noteq> []"
  by (subst string_of_nat.simps) simp

lemma digit_char_inj: "a < 10 \<Longrightarrow> b < 10 \<Longrightarrow> digit_char a = digit_char b \<Longrightarrow> a = b"
proof -
  assume a: "a < 10" and b: "b < 10" and e: "digit_char a = digit_char b"
  have d: "distinct ''0123456789''" by simp
  have l: "length ''0123456789'' = 10" by simp
  from e have "''0123456789'' ! a = ''0123456789'' ! b" by (simp only: digit_char_def)
  with nth_eq_iff_index_eq[OF d, of a b] a b l show "a = b" by simp
qed

lemma string_of_nat_inj: "string_of_nat n = string_of_nat m \<Longrightarrow> n = m"
proof (induction n arbitrary: m rule: less_induct)
  case (less n)
  show ?case
  proof (cases "n < 10")
    case True
    then have sn: "string_of_nat n = [digit_char n]" by (subst string_of_nat.simps) simp
    show ?thesis
    proof (cases "m < 10")
      case mt: True
      then have "string_of_nat m = [digit_char m]" by (subst string_of_nat.simps) simp
      with sn less.prems True mt show ?thesis by (auto dest: digit_char_inj)
    next
      case False
      then have "string_of_nat m = string_of_nat (m div 10) @ [digit_char (m mod 10)]"
        by (subst string_of_nat.simps) simp
      with sn less.prems string_of_nat_nonempty[of "m div 10"] show ?thesis by simp
    qed
  next
    case False
    then have sn: "string_of_nat n = string_of_nat (n div 10) @ [digit_char (n mod 10)]"
      by (subst string_of_nat.simps) simp
    show ?thesis
    proof (cases "m < 10")
      case True
      then have "string_of_nat m = [digit_char m]" by (subst string_of_nat.simps) simp
      with sn less.prems string_of_nat_nonempty[of "n div 10"] show ?thesis by simp
    next
      case mf: False
      then have "string_of_nat m = string_of_nat (m div 10) @ [digit_char (m mod 10)]"
        by (subst string_of_nat.simps) simp
      with sn less.prems have e: "string_of_nat (n div 10) = string_of_nat (m div 10)"
        "digit_char (n mod 10) = digit_char (m mod 10)" by simp_all
      have "n div 10 < n" using False by simp
      from less.IH[OF this e(1)] have d: "n div 10 = m div 10" .
      have "n mod 10 = m mod 10" using digit_char_inj[OF _ _ e(2)] by simp
      with d show ?thesis by (metis div_mult_mod_eq)
    qed
  qed
qed

lemma contentPath_inj: "contentPath dir n = contentPath dir m \<Longrightarrow> n = m"
  by (simp add: contentPath_def string_of_nat_inj)


lemma unlink_all:
  "foldl unlinkVersionFile fs vs p =
     (if p \<noteq> [] \<and> p \<in> v_contentFile ` set vs then None else fs p)"
proof (induction vs rule: rev_induct)
  case Nil
  then show ?case by simp
next
  case (snoc v vs)
  then show ?case by (auto simp: unlinkVersionFile_def)
qed

lemma map_of_scripts_entry:
  "wf_db st \<Longrightarrow> (k, s) \<in> set (scripts st) \<Longrightarrow> map_of (scripts st) k = Some s"
  by (simp add: wf_db_def wf_keys_def)

lemma delete_as_filter: "AList.delete k xs = filter (\<lambda>x. fst x \<noteq> k) xs"
  by (induction xs) auto

text \<open>The loop of removeTarget over a list of script entries of the store.\<close>

lemma foldl_removeScriptOf_char:
  assumes "wf_db st0" "distinct (map fst es)" "set es \<subseteq> set (scripts st0)"
  shows "scripts (foldl (removeScriptOf tid) st0 es) =
           filter (\<lambda>x. \<not> (x \<in> set es \<and> s_targetId (snd x) = tid)) (scripts st0) \<and>
         scriptVersions (foldl (removeScriptOf tid) st0 es) =
           filter (\<lambda>y. fst y \<notin> (\<lambda>x. s_id (snd x)) ` {x \<in> set es. s_targetId (snd x) = tid})
             (scriptVersions st0) \<and>
         (\<forall>p. files (foldl (removeScriptOf tid) st0 es) p =
            (if p \<noteq> [] \<and> (\<exists>x \<in> set es. s_targetId (snd x) = tid \<and>
                   p \<in> v_contentFile ` set (versionsOf st0 (s_id (snd x))))
             then None else files st0 p))"
  using assms
proof (induction es arbitrary: st0)
  case Nil
  then show ?case by simp
next
  case (Cons e es)
  obtain k s where e: "e = (k, s)" by (cases e)
  from Cons.prems have wf: "wf_db st0" and kn: "k \<notin> fst ` set es" and des: "distinct (map fst es)"
    and sub: "set es \<subseteq> set (scripts st0)" and ein: "(k, s) \<in> set (scripts st0)"
    by (auto simp: e)
  have look: "map_of (scripts st0) k = Some s" by (rule map_of_scripts_entry[OF wf ein])
  have only: "\<And>s'. (k, s') \<in> set (scripts st0) \<Longrightarrow> s' = s"
    using map_of_scripts_entry[OF wf] look by fastforce
  let ?st1 = "removeScriptOf tid st0 e"
  have wf1: "wf_db ?st1" by (rule removeScriptOf_wf[OF wf])
  show ?case
  proof (cases "s_targetId s = tid")
    case False
    then have st1: "?st1 = st0" using look by (simp add: removeScriptOf_def e)
    have eq1: "foldl (removeScriptOf tid) st0 (e # es) = foldl (removeScriptOf tid) st0 es"
      by (simp add: st1)
    have eq2: "(x \<in> set (e # es) \<and> s_targetId (snd x) = tid) = (x \<in> set es \<and> s_targetId (snd x) = tid)"
      for x using False by (auto simp: e)
    have eq3: "{x \<in> set (e # es). s_targetId (snd x) = tid} = {x \<in> set es. s_targetId (snd x) = tid}"
      using False by (auto simp: e)
    have eq4: "(\<exists>x \<in> set (e # es). s_targetId (snd x) = tid \<and> P x) =
               (\<exists>x \<in> set es. s_targetId (snd x) = tid \<and> P x)" for P
      using False by (auto simp: e)
    show ?thesis unfolding eq1 eq2 eq3 eq4 by (rule Cons.IH[OF wf des sub])
  next
    case True
    have sc1: "scripts ?st1 = filter (\<lambda>x. fst x \<noteq> k) (scripts st0)"
      and sv1: "scriptVersions ?st1 = filter (\<lambda>y. fst y \<noteq> s_id s) (scriptVersions st0)"
      and f1: "files ?st1 = foldl unlinkVersionFile (files st0) (versionsOf st0 (s_id s))"
      using look True by (simp_all add: removeScriptOf_def e delete_as_filter)
    have sub1: "set es \<subseteq> set (scripts ?st1)"
      using sub kn by (auto simp: sc1)
    note ih = Cons.IH[OF wf1 des sub1]
    have ids: "s_id (snd x) \<noteq> s_id s" if "x \<in> set es" for x
    proof -
      from that sub have "x \<in> set (scripts st0)" by auto
      then have "map_of (scripts st0) (fst x) = Some (snd x)"
        using map_of_scripts_entry[OF wf, of "fst x" "snd x"] by simp
      moreover have "fst x \<noteq> k" using that kn by auto
      ultimately show ?thesis
        using wf look wf_scripts_unique[of st0 "fst x" "snd x" k s] by (simp add: wf_db_def)
    qed
    have vo: "versionsOf ?st1 (s_id (snd x)) = versionsOf st0 (s_id (snd x))" if "x \<in> set es" for x
      using ids[OF that] by (simp add: versionsOf_def sv1 delete_as_filter[symmetric])
    have a: "scripts (foldl (removeScriptOf tid) st0 (e # es)) =
           filter (\<lambda>x. \<not> (x \<in> set (e # es) \<and> s_targetId (snd x) = tid)) (scripts st0)"
    proof -
      have "filter (\<lambda>x. \<not> (x \<in> set es \<and> s_targetId (snd x) = tid)) (filter (\<lambda>x. fst x \<noteq> k) (scripts st0))
          = filter (\<lambda>x. \<not> (x \<in> set (e # es) \<and> s_targetId (snd x) = tid)) (scripts st0)"
        unfolding filter_filter
      proof (rule filter_cong[OF refl])
        fix x assume x: "x \<in> set (scripts st0)"
        show "(fst x \<noteq> k \<and> \<not> (x \<in> set es \<and> s_targetId (snd x) = tid)) =
              (\<not> (x \<in> set (e # es) \<and> s_targetId (snd x) = tid))"
        proof (cases "fst x = k")
          case k: True
          have "(k, snd x) \<in> set (scripts st0)" using x k[symmetric] by simp
          from only[OF this] k have "x = e" unfolding e by (metis prod.collapse)
          with True show ?thesis by (simp add: e)
        next
          case False
          then have "x \<noteq> e" by (auto simp: e)
          with False show ?thesis by simp
        qed
      qed
      with ih show ?thesis by (simp add: sc1)
    qed
    have b: "scriptVersions (foldl (removeScriptOf tid) st0 (e # es)) =
           filter (\<lambda>y. fst y \<notin> (\<lambda>x. s_id (snd x)) ` {x \<in> set (e # es). s_targetId (snd x) = tid})
             (scriptVersions st0)"
    proof -
      have ins: "{x \<in> set (e # es). s_targetId (snd x) = tid} =
                 insert e {x \<in> set es. s_targetId (snd x) = tid}"
        using True by (auto simp: e)
      have se: "s_id (snd e) = s_id s" by (simp add: e)
      from ih have "scriptVersions (foldl (removeScriptOf tid) st0 (e # es)) =
          filter (\<lambda>y. fst y \<notin> (\<lambda>x. s_id (snd x)) ` {x \<in> set es. s_targetId (snd x) = tid})
            (filter (\<lambda>y. fst y \<noteq> s_id s) (scriptVersions st0))"
        by (simp add: sv1)
      also have "\<dots> = filter (\<lambda>y. fst y \<notin> (\<lambda>x. s_id (snd x)) ` {x \<in> set (e # es). s_targetId (snd x) = tid})
             (scriptVersions st0)"
        unfolding ins filter_filter image_insert insert_iff se de_Morgan_disj ..
      finally show ?thesis .
    qed
    have c: "files (foldl (removeScriptOf tid) st0 (e # es)) p =
            (if p \<noteq> [] \<and> (\<exists>x \<in> set (e # es). s_targetId (snd x) = tid \<and>
                   p \<in> v_contentFile ` set (versionsOf st0 (s_id (snd x))))
             then None else files st0 p)" for p
    proof -
      from ih have "files (foldl (removeScriptOf tid) st0 (e # es)) p =
          (if p \<noteq> [] \<and> (\<exists>x \<in> set es. s_targetId (snd x) = tid \<and>
                   p \<in> v_contentFile ` set (versionsOf ?st1 (s_id (snd x))))
             then None else files ?st1 p)" by simp
      also have "\<dots> = (if p \<noteq> [] \<and> (\<exists>x \<in> set es. s_targetId (snd x) = tid \<and>
                   p \<in> v_contentFile ` set (versionsOf st0 (s_id (snd x))))
             then None else files ?st1 p)"
        using vo by (auto cong: if_cong)
      also have "\<dots> = (if p \<noteq> [] \<and> (\<exists>x \<in> set (e # es). s_targetId (snd x) = tid \<and>
                   p \<in> v_contentFile ` set (versionsOf st0 (s_id (snd x))))
             then None else files st0 p)"
      proof -
        have f1p: "files ?st1 p =
            (if p \<noteq> [] \<and> p \<in> v_contentFile ` set (versionsOf st0 (s_id s)) then None else files st0 p)"
          by (simp add: f1 unlink_all)
        have te: "s_targetId (snd e) = tid" "s_id (snd e) = s_id s" using True by (simp_all add: e)
        have ex: "(\<exists>x \<in> set (e # es). s_targetId (snd x) = tid \<and>
                     p \<in> v_contentFile ` set (versionsOf st0 (s_id (snd x)))) =
                  (p \<in> v_contentFile ` set (versionsOf st0 (s_id s)) \<or>
                   (\<exists>x \<in> set es. s_targetId (snd x) = tid \<and>
                     p \<in> v_contentFile ` set (versionsOf st0 (s_id (snd x)))))"
          using te by auto
        show ?thesis unfolding ex f1p by auto
      qed
      finally show ?thesis .
    qed
    from a b c show ?thesis by blast
  qed
qed


lemma map_of_filter_fst:
  "map_of (filter (\<lambda>y. P (fst y)) xs) k = (if P k then map_of xs k else None)"
  by (induction xs) auto

lemma versionsOf_mem_lookup:
  "v \<in> set (versionsOf st k) \<Longrightarrow> \<exists>vs. map_of (scriptVersions st) k = Some vs \<and> v \<in> set vs"
  by (cases "map_of (scriptVersions st) k") (auto simp: versionsOf_def)

lemma removeTarget_unknown:
  "js_get (targets st) domain = Undefined \<Longrightarrow> removeTarget st domain = (False, st)"
  by (simp add: removeTarget_def)

text \<open>
  Removing a target that the store holds, in a store the operations can build: the call
  returns true; the target, its scans and its scripts are gone and those of the other
  targets stay, in their order; a script of the target loses its version list and the
  content files of its versions; a script of another target keeps its version list and
  the content of every version; the id counters do not move. A domain that is neither a
  target nor an inherited property name returns false and changes nothing
  (\<open>removeTarget_unknown\<close>).
\<close>

theorem removeTarget_cascade:
  assumes r: "reachable h st" and own: "map_of (targets st) domain = Some t"
  defines "st' \<equiv> snd (removeTarget st domain)"
  shows "fst (removeTarget st domain) \<and>
         targets st' = filter (\<lambda>x. fst x \<noteq> domain) (targets st) \<and>
         scans st' = filter (\<lambda>s. sc_targetId s \<noteq> t_id t) (scans st) \<and>
         scripts st' = filter (\<lambda>x. s_targetId (snd x) \<noteq> t_id t) (scripts st) \<and>
         (\<forall>x \<in> set (scripts st).
            if s_targetId (snd x) = t_id t
            then versionsOf st' (s_id (snd x)) = [] \<and>
                 (\<forall>v \<in> set (versionsOf st (s_id (snd x))). files st' (v_contentFile v) = None)
            else versionsOf st' (s_id (snd x)) = versionsOf st (s_id (snd x)) \<and>
                 (\<forall>v \<in> set (versionsOf st (s_id (snd x))).
                    files st' (v_contentFile v) = files st (v_contentFile v))) \<and>
         nextId_target st' = nextId_target st \<and> nextId_scan st' = nextId_scan st \<and>
         nextId_script st' = nextId_script st \<and> nextId_version st' = nextId_version st"
proof -
  from r have wf: "wf_db st" by (rule reachable_wf)
  then have dk: "distinct (map fst (scripts st))" and ws: "wf_scripts st" and wv: "wf_versions st"
    by (simp_all add: wf_db_def wf_keys_def)
  let ?tid = "t_id t"
  let ?st1 = "foldl (removeScriptOf ?tid) st (scripts st)"
  let ?ids = "(\<lambda>x. s_id (snd x)) ` {x \<in> set (scripts st). s_targetId (snd x) = ?tid}"
  have st': "st' = ?st1\<lparr>scans := filter (\<lambda>s. sc_targetId s \<noteq> ?tid) (scans ?st1),
                         targets := AList.delete domain (targets ?st1)\<rparr>"
    and res: "fst (removeTarget st domain)"
    using own by (simp_all add: st'_def removeTarget_def js_get_def Let_def)
  note fr = foldl_removeScriptOf_frame[of ?tid st "scripts st"]
  note ch = foldl_removeScriptOf_char[OF wf dk subset_refl, of ?tid]
  have sc: "scripts st' = filter (\<lambda>x. s_targetId (snd x) \<noteq> ?tid) (scripts st)"
    using ch by (simp add: st' cong: filter_cong)
  have sv: "scriptVersions st' = filter (\<lambda>y. fst y \<notin> ?ids) (scriptVersions st)"
    using ch by (simp add: st')
  have fl: "files st' p =
      (if p \<noteq> [] \<and> (\<exists>x \<in> set (scripts st). s_targetId (snd x) = ?tid \<and>
                   p \<in> v_contentFile ` set (versionsOf st (s_id (snd x))))
       then None else files st p)" for p
    using ch by (simp add: st')
  have look: "map_of (scriptVersions st') k = (if k \<notin> ?ids then map_of (scriptVersions st) k else None)"
    for k unfolding sv by (rule map_of_filter_fst)
  have per: "if s_targetId (snd x) = ?tid
            then versionsOf st' (s_id (snd x)) = [] \<and>
                 (\<forall>v \<in> set (versionsOf st (s_id (snd x))). files st' (v_contentFile v) = None)
            else versionsOf st' (s_id (snd x)) = versionsOf st (s_id (snd x)) \<and>
                 (\<forall>v \<in> set (versionsOf st (s_id (snd x))).
                    files st' (v_contentFile v) = files st (v_contentFile v))"
    if x: "x \<in> set (scripts st)" for x
  proof (cases "s_targetId (snd x) = ?tid")
    case True
    with x have "s_id (snd x) \<in> ?ids" by blast
    then have "versionsOf st' (s_id (snd x)) = []" by (simp add: versionsOf_def look)
    moreover have "files st' (v_contentFile v) = None" if "v \<in> set (versionsOf st (s_id (snd x)))" for v
    proof -
      have "v_contentFile v \<noteq> []"
        using versionsOf_contentFile[OF wf that] by (simp add: contentPath_nonempty)
      with that x True show ?thesis unfolding fl by auto
    qed
    ultimately show ?thesis using True by simp
  next
    case False
    have xm: "map_of (scripts st) (fst x) = Some (snd x)"
      using map_of_scripts_entry[OF wf, of "fst x" "snd x"] x by simp
    have other: "s_id (snd y) \<noteq> s_id (snd x)"
      if y: "y \<in> set (scripts st)" "s_targetId (snd y) = ?tid" for y
    proof -
      have ym: "map_of (scripts st) (fst y) = Some (snd y)"
        using map_of_scripts_entry[OF wf, of "fst y" "snd y"] y by simp
      have "fst y \<noteq> fst x" using xm ym y(2) False by auto
      from wf_scripts_unique[OF ws ym xm this] show ?thesis .
    qed
    then have "s_id (snd x) \<notin> ?ids" by force
    then have a: "versionsOf st' (s_id (snd x)) = versionsOf st (s_id (snd x))"
      by (simp add: versionsOf_def look)
    have b: "files st' (v_contentFile v) = files st (v_contentFile v)"
      if v: "v \<in> set (versionsOf st (s_id (snd x)))" for v
    proof -
      have "v_contentFile v \<notin> v_contentFile ` set (versionsOf st (s_id (snd y)))"
        if y: "y \<in> set (scripts st)" "s_targetId (snd y) = ?tid" for y
      proof
        assume "v_contentFile v \<in> v_contentFile ` set (versionsOf st (s_id (snd y)))"
        then obtain u where u: "u \<in> set (versionsOf st (s_id (snd y)))"
          "v_contentFile u = v_contentFile v" by auto
        have "contentPath (scriptsDir st) (v_id u) = contentPath (scriptsDir st) (v_id v)"
          using versionsOf_contentFile[OF wf u(1)] versionsOf_contentFile[OF wf v] u(2) by simp
        then have same: "v_id u = v_id v" by (rule contentPath_inj)
        from versionsOf_mem_lookup[OF u(1)] obtain us where
          us: "map_of (scriptVersions st) (s_id (snd y)) = Some us" "u \<in> set us" by blast
        from versionsOf_mem_lookup[OF v] obtain vs where
          vs: "map_of (scriptVersions st) (s_id (snd x)) = Some vs" "v \<in> set vs" by blast
        from wf_versions_unique[OF wv us(1) vs(1) us(2) vs(2) other[OF y]] same show False by simp
      qed
      then show ?thesis unfolding fl by auto
    qed
    from a b False show ?thesis by simp
  qed
  have tg: "targets st' = filter (\<lambda>x. fst x \<noteq> domain) (targets st)"
    using fr by (simp add: st' delete_as_filter)
  have scn: "scans st' = filter (\<lambda>s. sc_targetId s \<noteq> ?tid) (scans st)"
    using fr by (simp add: st')
  have ids: "nextId_target st' = nextId_target st" "nextId_scan st' = nextId_scan st"
    "nextId_script st' = nextId_script st" "nextId_version st' = nextId_version st"
    using fr by (simp_all add: st')
  from res tg scn sc per ids show ?thesis by blast
qed

text \<open>
  Claim C9 against the code: no target named \<open>constructor\<close> exists in a fresh store, yet
  \<open>removeTarget\<close> returns true for it, since \<open>this.db.targets[domain]\<close> finds the property
  that every plain object inherits.
\<close>

theorem removeTarget_inherited_property:
  "map_of (targets freshStore) ''constructor'' = None \<and>
   fst (removeTarget freshStore ''constructor'') = True"
  by (simp add: removeTarget_def js_get_def freshStore_def loadDb_def object_prototype_keys_def)

subsection \<open>Storing for a script again\<close>

text \<open>Between two calls the script keeps its id and its version list only grows at the end.\<close>

lemma find_append:
  "find P (xs @ ys) = (case find P xs of None \<Rightarrow> find P ys | Some x \<Rightarrow> Some x)"
  by (induction xs) auto

lemma resolveScript_other:
  assumes "resolveScript now st tid sd ni = (script, b, st1)"
  shows "map_of (scripts st1) k =
           (if k = (tid, n_identifier ni) then Some script else map_of (scripts st) k)"
  using assms by (auto simp: resolveScript_def Let_def update_conv' split: option.splits)

lemma storeScript_scripts:
  assumes r: "resolveScript now st tid sd ni = (script, b, st1)"
  shows "scripts (snd (storeScript h now st tid scanId sd ni)) = scripts st1 \<and>
         r_scriptId (fst (storeScript h now st tid scanId sd ni)) = s_id script"
proof -
  obtain res st' where s: "storeScript h now st tid scanId sd ni = (res, st')"
    by (cases "storeScript h now st tid scanId sd ni") auto
  show ?thesis
  proof (cases "find (\<lambda>v. v_contentHash v = h (sd_content sd)) (versionsOf st (s_id script))")
    case None
    from storeScript_new_hash[OF r None s] ensureVersionList_frame[of st1 "s_id script"] s
    show ?thesis by simp
  next
    case (Some e)
    from storeScript_known_hash[OF r Some s] ensureVersionList_frame[of st1 "s_id script"] s
    show ?thesis by simp
  qed
qed

lemma storeScript_keeps_script:
  assumes m: "map_of (scripts st) k = Some s"
  shows "\<exists>s'. map_of (scripts (snd (storeScript h now st tid scanId sd ni))) k = Some s' \<and>
              s_id s' = s_id s"
proof -
  obtain script b st1 where r: "resolveScript now st tid sd ni = (script, b, st1)"
    by (cases "resolveScript now st tid sd ni") auto
  show ?thesis
  proof (cases "k = (tid, n_identifier ni)")
    case True
    with resolveScript_frame[OF r] m have "s_id script = s_id s" by simp
    with True resolveScript_other[OF r, of k] storeScript_scripts[OF r, of h scanId]
    show ?thesis by simp
  next
    case False
    with resolveScript_other[OF r, of k] storeScript_scripts[OF r, of h scanId] m
    show ?thesis by simp
  qed
qed

lemma storeScript_versions_grow:
  "\<exists>more. versionsOf (snd (storeScript h now st tid scanId sd ni)) k = versionsOf st k @ more \<and>
          (k \<noteq> r_scriptId (fst (storeScript h now st tid scanId sd ni)) \<longrightarrow> more = [])"
proof -
  obtain script b st1 where r: "resolveScript now st tid sd ni = (script, b, st1)"
    by (cases "resolveScript now st tid sd ni") auto
  obtain res st' where s: "storeScript h now st tid scanId sd ni = (res, st')"
    by (cases "storeScript h now st tid scanId sd ni") auto
  show ?thesis
  proof (cases "find (\<lambda>v. v_contentHash v = h (sd_content sd)) (versionsOf st (s_id script))")
    case None
    note n = storeScript_new_hash[OF r None s]
    have o: "versionsOf (ensureVersionList st1 (s_id script)) k = versionsOf st k"
      by (rule resolveScript_versionsOf[OF r])
    show ?thesis
    proof (cases "k = s_id script")
      case True
      then show ?thesis using n s by (simp add: versionsOf_def update_conv')
    next
      case False
      then have "versionsOf st' k = versionsOf st k"
        using n o by (simp add: versionsOf_def update_conv')
      then show ?thesis using s by simp
    qed
  next
    case (Some e)
    from storeScript_known_hash[OF r Some s] resolveScript_versionsOf[OF r, of "s_id script" k] s
    show ?thesis by simp
  qed
qed

lemma getOrCreateTarget_frame:
  "scripts (snd (getOrCreateTarget now st domain)) = scripts st \<and>
   scriptVersions (snd (getOrCreateTarget now st domain)) = scriptVersions st"
  by (simp add: getOrCreateTarget_def Let_def split: js_lookup.splits)

lemma createScan_frame:
  "scripts (snd (createScan now st tid url n m)) = scripts st \<and>
   scriptVersions (snd (createScan now st tid url n m)) = scriptVersions st"
  by (simp add: createScan_def Let_def)

lemma removeTarget_keeps_script:
  assumes r: "reachable h st" and m: "map_of (scripts st) (tid, ident) = Some s"
    and other: "\<forall>t. map_of (targets st) domain = Some t \<longrightarrow> t_id t \<noteq> tid"
  shows "map_of (scripts (snd (removeTarget st domain))) (tid, ident) = Some s \<and>
         versionsOf (snd (removeTarget st domain)) (s_id s) = versionsOf st (s_id s)"
proof (cases "map_of (targets st) domain")
  case None
  then show ?thesis using m by (simp add: removeTarget_def js_get_def)
next
  case (Some t)
  from r have wf: "wf_db st" by (rule reachable_wf)
  then have ws: "wf_scripts st" by (simp add: wf_db_def)
  from wf_scripts_bound[OF ws m] have tg: "s_targetId s = tid" by simp
  from other Some have ne: "t_id t \<noteq> tid" by simp
  note c = removeTarget_cascade[OF r Some]
  have mem: "((tid, ident), s) \<in> set (scripts st)" using m by (rule map_of_SomeD)
  from c have sc: "scripts (snd (removeTarget st domain)) =
      filter (\<lambda>x. s_targetId (snd x) \<noteq> t_id t) (scripts st)" by blast
  have "map_of (filter (\<lambda>(k, v). s_targetId v \<noteq> t_id t) (scripts st)) (tid, ident) = Some s"
    by (rule map_of_filter_in[OF m]) (simp add: tg ne[symmetric])
  then have a: "map_of (scripts (snd (removeTarget st domain))) (tid, ident) = Some s"
    unfolding sc by (simp add: case_prod_unfold)
  from c have "\<forall>x \<in> set (scripts st).
            if s_targetId (snd x) = t_id t
            then versionsOf (snd (removeTarget st domain)) (s_id (snd x)) = [] \<and>
                 (\<forall>v \<in> set (versionsOf st (s_id (snd x))). files (snd (removeTarget st domain)) (v_contentFile v) = None)
            else versionsOf (snd (removeTarget st domain)) (s_id (snd x)) = versionsOf st (s_id (snd x)) \<and>
                 (\<forall>v \<in> set (versionsOf st (s_id (snd x))).
                    files (snd (removeTarget st domain)) (v_contentFile v) = files st (v_contentFile v))"
    by blast
  from this[rule_format, OF mem] tg ne
  have "versionsOf (snd (removeTarget st domain)) (s_id s) = versionsOf st (s_id s)" by simp
  with a show ?thesis by simp
qed

lemma later_keeps:
  assumes l: "later h tid st st'" and r: "reachable h st"
    and m: "map_of (scripts st) (tid, ident) = Some s"
  shows "reachable h st' \<and> (\<exists>s'. map_of (scripts st') (tid, ident) = Some s' \<and> s_id s' = s_id s) \<and>
         (\<exists>more. versionsOf st' (s_id s) = versionsOf st (s_id s) @ more)"
  using l
proof (induction rule: later.induct)
  case same
  then show ?case using r m by simp
next
  case (target st' now domain)
  then show ?case
    using getOrCreateTarget_frame[of now st' domain]
      versionsOf_cong[of "snd (getOrCreateTarget now st' domain)" st' "s_id s"]
    by (auto intro: reachable.target)
next
  case (scan st' now tid' url n k)
  then show ?case
    using createScan_frame[of now st' tid' url n k]
      versionsOf_cong[of "snd (createScan now st' tid' url n k)" st' "s_id s"]
    by (auto intro: reachable.scan)
next
  case (store st' now tid' scanId sd info)
  then obtain s' more where s': "map_of (scripts st') (tid, ident) = Some s'" "s_id s' = s_id s"
    and g: "versionsOf st' (s_id s) = versionsOf st (s_id s) @ more" by blast
  from storeScript_keeps_script[OF s'(1), of h now tid' scanId sd info] s'(2)
  have a: "\<exists>s''. map_of (scripts (snd (storeScript h now st' tid' scanId sd info))) (tid, ident) = Some s'' \<and>
      s_id s'' = s_id s" by auto
  from storeScript_versions_grow[of h now st' tid' scanId sd info "s_id s"] g
  have b: "\<exists>more. versionsOf (snd (storeScript h now st' tid' scanId sd info)) (s_id s) =
      versionsOf st (s_id s) @ more" by auto
  from store.IH have "reachable h (snd (storeScript h now st' tid' scanId sd info))"
    by (auto intro: reachable.store)
  with a b show ?case by blast
next
  case (remove st' domain)
  then obtain s' more where s': "map_of (scripts st') (tid, ident) = Some s'" "s_id s' = s_id s"
    and g: "versionsOf st' (s_id s) = versionsOf st (s_id s) @ more" and r': "reachable h st'" by blast
  from removeTarget_keeps_script[OF r' s'(1) remove.hyps(2)] s'(2) g
  have "map_of (scripts (snd (removeTarget st' domain))) (tid, ident) = Some s'"
    "versionsOf (snd (removeTarget st' domain)) (s_id s) = versionsOf st (s_id s) @ more" by simp_all
  moreover have "reachable h (snd (removeTarget st' domain))" using r' by (rule reachable.remove)
  ultimately show ?case using s'(2) by blast
next
  case (disk st' fs)
  then show ?case
    using versionsOf_cong[of "st'\<lparr>files := fs\<rparr>" st' "s_id s"]
    by (auto intro: reachable.disk)
qed



text \<open>
  Claim C2, as the code has it. A first call of \<open>storeScript\<close> is made in a store the
  operations can build; anything but the removal of the target may follow; then a second
  call is made.

  If the second call names the same target id and stable identifier, it resolves the
  same script. If the digest of its content equals that of the first call (in
  particular, if the content is the same), it reports no new version and returns the
  version id of the first call. If the two digests differ, the two version ids differ.

  If the second call names another target id or another identifier, it resolves another
  script and returns another version id, whatever the contents are; made right after the
  first call, it reports a new version exactly when the digest is absent from the list
  that script had before the first call: what is stored for one script is never found
  for another.

  In both calls a version is new exactly when its digest is absent from the version list
  of the resolved script.
\<close>

theorem storeScript_dedup:
  fixes h :: "string \<Rightarrow> string" and st st2 :: storage
    and tid1 tid2 now1 now2 scan1 scan2 :: nat
    and sd1 sd2 :: script_data and ni1 ni2 :: normalized_info
  defines "r1 \<equiv> fst (storeScript h now1 st tid1 scan1 sd1 ni1)"
    and "st1 \<equiv> snd (storeScript h now1 st tid1 scan1 sd1 ni1)"
    and "r2 \<equiv> fst (storeScript h now2 st2 tid2 scan2 sd2 ni2)"
  assumes reach: "reachable h st" and between: "later h tid1 st1 st2"
  shows "(tid2 = tid1 \<and> n_identifier ni2 = n_identifier ni1 \<longrightarrow>
            r_scriptId r2 = r_scriptId r1 \<and>
            (h (sd_content sd2) = h (sd_content sd1) \<longrightarrow>
               \<not> r_isNewVersion r2 \<and> r_versionId r2 = r_versionId r1) \<and>
            (h (sd_content sd2) \<noteq> h (sd_content sd1) \<longrightarrow> r_versionId r2 \<noteq> r_versionId r1)) \<and>
         (tid2 \<noteq> tid1 \<or> n_identifier ni2 \<noteq> n_identifier ni1 \<longrightarrow>
            r_scriptId r2 \<noteq> r_scriptId r1 \<and> r_versionId r2 \<noteq> r_versionId r1 \<and>
            (st2 = st1 \<longrightarrow>
               (r_isNewVersion r2 \<longleftrightarrow>
                  h (sd_content sd2) \<notin> v_contentHash ` set (versionsOf st (r_scriptId r2))))) \<and>
         (r_isNewVersion r1 \<longleftrightarrow>
            h (sd_content sd1) \<notin> v_contentHash ` set (versionsOf st (r_scriptId r1))) \<and>
         (r_isNewVersion r2 \<longleftrightarrow>
            h (sd_content sd2) \<notin> v_contentHash ` set (versionsOf st2 (r_scriptId r2)))"
proof -
  let ?P1 = "\<lambda>v. v_contentHash v = h (sd_content sd1)"
  let ?P2 = "\<lambda>v. v_contentHash v = h (sd_content sd2)"
  let ?k1 = "r_scriptId r1"
  from reach have wf: "wf_db st" by (rule reachable_wf)
  have s1: "storeScript h now1 st tid1 scan1 sd1 ni1 = (r1, st1)" by (simp add: r1_def st1_def)
  have reach1: "reachable h st1" unfolding st1_def using reach by (rule reachable.store)
  from storeScript_post[OF wf s1] obtain script e where
    m: "map_of (scripts st1) (tid1, n_identifier ni1) = Some script" and
    id: "s_id script = ?k1" and
    e: "find ?P1 (versionsOf st1 ?k1) = Some e" "v_id e = r_versionId r1" and
    nv1: "r_isNewVersion r1 \<longleftrightarrow> find ?P1 (versionsOf st ?k1) = None"
    by (elim exE conjE) simp
  from later_keeps[OF between reach1 m] id obtain script2 more where
    reach2: "reachable h st2" and
    m2: "map_of (scripts st2) (tid1, n_identifier ni1) = Some script2" and
    id2: "s_id script2 = ?k1" and
    grow: "versionsOf st2 ?k1 = versionsOf st1 ?k1 @ more" by auto
  from reach2 have wf2: "wf_db st2" by (rule reachable_wf)
  from find_Some_mem[OF e(1)] have e1: "e \<in> set (versionsOf st1 ?k1)"
    "v_contentHash e = h (sd_content sd1)" by simp_all
  from e1(1) grow have e2: "e \<in> set (versionsOf st2 ?k1)" by simp
  have fe: "find ?P1 (versionsOf st2 ?k1) = Some e" using e(1) grow by (simp add: find_append)
  obtain st3 where s2: "storeScript h now2 st2 tid2 scan2 sd2 ni2 = (r2, st3)"
    by (cases "storeScript h now2 st2 tid2 scan2 sd2 ni2") (simp add: r2_def)
  have wf3: "wf_db st3" using storeScript_wf[OF wf2, of h now2 tid2 scan2 sd2 ni2] s2 by simp
  from storeScript_post[OF wf2 s2] obtain scriptB eB where
    mB: "map_of (scripts st3) (tid2, n_identifier ni2) = Some scriptB" and
    idB: "s_id scriptB = r_scriptId r2" and
    eB: "find ?P2 (versionsOf st3 (r_scriptId r2)) = Some eB" "v_id eB = r_versionId r2" and
    nv2: "r_isNewVersion r2 \<longleftrightarrow> find ?P2 (versionsOf st2 (r_scriptId r2)) = None"
    by (elim exE conjE) simp
  have same: "r_scriptId r2 = ?k1 \<and>
            (h (sd_content sd2) = h (sd_content sd1) \<longrightarrow>
               \<not> r_isNewVersion r2 \<and> r_versionId r2 = r_versionId r1) \<and>
            (h (sd_content sd2) \<noteq> h (sd_content sd1) \<longrightarrow> r_versionId r2 \<noteq> r_versionId r1)"
    if key: "tid2 = tid1 \<and> n_identifier ni2 = n_identifier ni1"
  proof -
    from m2 key have m2': "map_of (scripts st2) (tid2, n_identifier ni2) = Some script2" by simp
    note k = storeScript_known_script[OF m2', of h now2 scan2 sd2, folded r2_def]
    have a: "r_scriptId r2 = ?k1" using k id2 by simp
    have b: "\<not> r_isNewVersion r2 \<and> r_versionId r2 = r_versionId r1"
      if "h (sd_content sd2) = h (sd_content sd1)"
      using k id2 fe e(2) that by simp
    have c: "r_versionId r2 \<noteq> r_versionId r1" if ne: "h (sd_content sd2) \<noteq> h (sd_content sd1)"
    proof (cases "find ?P2 (versionsOf st2 ?k1)")
      case None
      then have "r_versionId r2 = nextId_version st2" using k id2 by simp
      with versionsOf_bound[OF wf2 e2] e(2) show ?thesis by simp
    next
      case (Some x)
      then have v2: "r_versionId r2 = v_id x" using k id2 by simp
      from find_Some_mem[OF Some] have x: "x \<in> set (versionsOf st2 ?k1)"
        "v_contentHash x = h (sd_content sd2)" by simp_all
      have "inj_on v_id (set (versionsOf st2 ?k1))"
        using versionsOf_distinct[OF wf2, of ?k1] by (simp add: distinct_map)
      then have "v_id x = v_id e \<Longrightarrow> x = e" using e2 x(1) by (simp add: inj_on_def)
      with ne e1(2) x(2) have "v_id x \<noteq> v_id e" by auto
      with v2 e(2) show ?thesis by simp
    qed
    from a b c show ?thesis by blast
  qed
  have other: "r_scriptId r2 \<noteq> ?k1 \<and> r_versionId r2 \<noteq> r_versionId r1 \<and>
            (st2 = st1 \<longrightarrow>
               (r_isNewVersion r2 \<longleftrightarrow>
                  h (sd_content sd2) \<notin> v_contentHash ` set (versionsOf st (r_scriptId r2))))"
    if key: "tid2 \<noteq> tid1 \<or> n_identifier ni2 \<noteq> n_identifier ni1"
  proof -
    obtain sc b stR where r: "resolveScript now2 st2 tid2 sd2 ni2 = (sc, b, stR)"
      by (cases "resolveScript now2 st2 tid2 sd2 ni2") auto
    from storeScript_scripts[OF r, of h scan2] s2
    have sc3: "scripts st3 = scripts stR" and rid: "r_scriptId r2 = s_id sc" by simp_all
    from key have kne: "(tid1, n_identifier ni1) \<noteq> (tid2, n_identifier ni2)" by auto
    have m3: "map_of (scripts st3) (tid1, n_identifier ni1) = Some script2"
      using resolveScript_other[OF r, of "(tid1, n_identifier ni1)"] kne m2 sc3 by auto
    from wf3 have ws3: "wf_scripts st3" and wv3: "wf_versions st3" by (simp_all add: wf_db_def)
    from wf_scripts_unique[OF ws3 m3 mB kne] id2 idB
    have a: "r_scriptId r2 \<noteq> ?k1" by simp
    from storeScript_versions_grow[of h now2 st2 tid2 scan2 sd2 ni2 ?k1] a s2
    have keep: "versionsOf st3 ?k1 = versionsOf st2 ?k1" by auto
    with e2 have e3: "e \<in> set (versionsOf st3 ?k1)" by simp
    from find_Some_mem[OF eB(1)] have eB3: "eB \<in> set (versionsOf st3 (r_scriptId r2))" by simp
    from versionsOf_mem_lookup[OF e3] obtain vs1 where
      vs1: "map_of (scriptVersions st3) ?k1 = Some vs1" "e \<in> set vs1" by blast
    from versionsOf_mem_lookup[OF eB3] obtain vs2 where
      vs2: "map_of (scriptVersions st3) (r_scriptId r2) = Some vs2" "eB \<in> set vs2" by blast
    from wf_versions_unique[OF wv3 vs2(1) vs1(1) vs2(2) vs1(2) a] eB(2) e(2)
    have b: "r_versionId r2 \<noteq> r_versionId r1" by simp
    have c: "r_isNewVersion r2 \<longleftrightarrow>
               h (sd_content sd2) \<notin> v_contentHash ` set (versionsOf st (r_scriptId r2))"
      if eq: "st2 = st1"
    proof -
      from storeScript_versions_grow[of h now1 st tid1 scan1 sd1 ni1 "r_scriptId r2"] a
      have "versionsOf st1 (r_scriptId r2) = versionsOf st (r_scriptId r2)"
        by (auto simp: st1_def r1_def)
      with nv2 eq show ?thesis by (simp add: find_hash_None)
    qed
    from a b c show ?thesis by blast
  qed
  have d: "r_isNewVersion r1 \<longleftrightarrow>
            h (sd_content sd1) \<notin> v_contentHash ` set (versionsOf st ?k1)"
    using nv1 by (simp add: find_hash_None)
  have f: "r_isNewVersion r2 \<longleftrightarrow>
            h (sd_content sd2) \<notin> v_contentHash ` set (versionsOf st2 (r_scriptId r2))"
    using nv2 by (simp add: find_hash_None)
  from same other d f show ?thesis by blast
qed



theorem storeScript_dedup_witness:
  "reachable (\<lambda>c. c) freshStore \<and> later (\<lambda>c. c) 1 afterMainA afterScan \<and>
   later (\<lambda>c. c) 1 afterMainA afterMainA \<and>
   \<not> r_isNewVersion (fst (storeScript (\<lambda>c. c) 2000 afterScan 1 2 mainA mainInfo)) \<and>
   r_versionId (fst (storeScript (\<lambda>c. c) 2000 afterScan 1 2 mainA mainInfo)) =
     r_versionId (fst (storeScript (\<lambda>c. c) 1000 freshStore 1 1 mainA mainInfo)) \<and>
   r_versionId (fst (storeScript (\<lambda>c. c) 2000 afterScan 1 2 mainB mainInfo)) \<noteq>
     r_versionId (fst (storeScript (\<lambda>c. c) 1000 freshStore 1 1 mainA mainInfo)) \<and>
   r_scriptId (fst (storeScript (\<lambda>c. c) 2000 afterScan 1 2 mainA vendorInfo)) \<noteq>
     r_scriptId (fst (storeScript (\<lambda>c. c) 1000 freshStore 1 1 mainA mainInfo)) \<and>
   r_versionId (fst (storeScript (\<lambda>c. c) 2000 afterScan 1 2 mainA vendorInfo)) \<noteq>
     r_versionId (fst (storeScript (\<lambda>c. c) 1000 freshStore 1 1 mainA mainInfo)) \<and>
   r_isNewVersion (fst (storeScript (\<lambda>c. c) 2000 afterMainA 1 2 mainA vendorInfo))"
proof -
  have r: "reachable (\<lambda>c. c) freshStore"
    unfolding freshStore_def by (rule reachable.fresh)
  have l0: "later (\<lambda>c. c) 1 (snd (storeScript (\<lambda>c. c) 1000 freshStore 1 1 mainA mainInfo)) afterMainA"
    unfolding afterMainA_def by (rule later.same)
  have l1: "later (\<lambda>c. c) 1 (snd (storeScript (\<lambda>c. c) 1000 freshStore 1 1 mainA mainInfo)) afterScan"
    unfolding afterScan_def afterMainA_def by (intro later.scan later.same)
  have c: "sd_content mainB \<noteq> sd_content mainA" by (simp add: mainA_def mainB_def)
  have k: "n_identifier vendorInfo \<noteq> n_identifier mainInfo" by (simp add: vendorInfo_def mainInfo_def)
  have v: "versionsOf freshStore j = []" for j by (simp add: versionsOf_def freshStore_def loadDb_def)
  note t = storeScript_dedup[where h = "\<lambda>c. c" and st = freshStore and ?ni1.0 = mainInfo
      and ?now1.0 = 1000 and ?now2.0 = 2000 and ?tid1.0 = 1 and ?tid2.0 = 1 and ?scan1.0 = 1
      and ?scan2.0 = 2 and ?sd1.0 = mainA, OF r]
  from t[where ?st2.0 = afterScan and ?sd2.0 = mainA and ?ni2.0 = mainInfo, OF l1]
    t[where ?st2.0 = afterScan and ?sd2.0 = mainB and ?ni2.0 = mainInfo, OF l1]
    t[where ?st2.0 = afterScan and ?sd2.0 = mainA and ?ni2.0 = vendorInfo, OF l1]
    t[where ?st2.0 = afterMainA and ?sd2.0 = mainA and ?ni2.0 = vendorInfo, OF l0]
    r l0 l1 c k v
  show ?thesis by (simp add: afterMainA_def)
qed

text \<open>
  Claim C2 as stated fails where it promises distinct version ids for every pair of
  distinct contents: versions are told apart by digest alone. With a digest function
  that maps every content to the same 64 characters, two different contents stored for
  the same script get the same version id. Whatever the digest function is, a digest of
  bounded length (64 hex characters for SHA-256) is shared by two different contents
  (\<open>digest_collision\<close>), and storing those two gives one version id
  (\<open>storeScript_shares_version\<close>).
\<close>

theorem storeScript_same_digest_counterexample:
  "sd_content mainB \<noteq> sd_content mainA \<and>
   r_versionId (fst (storeScript zeroDigest 2000
      (snd (storeScript zeroDigest 1000 freshStore 1 1 mainA mainInfo)) 1 2 mainB mainInfo)) =
   r_versionId (fst (storeScript zeroDigest 1000 freshStore 1 1 mainA mainInfo))"
  by (simp add: store_eval zeroDigest_def)

lemma digest_collision:
  fixes h :: "string \<Rightarrow> string"
  assumes "\<forall>c. length (h c) \<le> n"
  shows "\<exists>c1 c2. c1 \<noteq> c2 \<and> h c1 = h c2"
proof (rule ccontr)
  assume "\<not> (\<exists>c1 c2. c1 \<noteq> c2 \<and> h c1 = h c2)"
  then have "inj h" by (auto simp: inj_on_def)
  have "range h \<subseteq> {xs. set xs \<subseteq> UNIV \<and> length xs \<le> n}" using assms by auto
  moreover have "finite {xs :: string. set xs \<subseteq> UNIV \<and> length xs \<le> n}"
    by (rule finite_lists_length_le) simp
  ultimately have "finite (range h)" by (rule finite_subset)
  then have "finite (UNIV :: string set)" using \<open>inj h\<close> by (rule finite_imageD)
  then show False by (simp add: infinite_UNIV_listI)
qed

lemma storeScript_same_digest:
  assumes "reachable h st" "h (sd_content sd2) = h (sd_content sd1)"
  shows "r_versionId (fst (storeScript h now2
            (snd (storeScript h now1 st tid scan1 sd1 ni)) tid scan2 sd2 ni)) =
         r_versionId (fst (storeScript h now1 st tid scan1 sd1 ni))"
proof -
  obtain r1 st1 where s1: "storeScript h now1 st tid scan1 sd1 ni = (r1, st1)"
    by (cases "storeScript h now1 st tid scan1 sd1 ni") auto
  from assms(1) have wf: "wf_db st" by (rule reachable_wf)
  from storeScript_post[OF wf s1] obtain script e where
    m: "map_of (scripts st1) (tid, n_identifier ni) = Some script" and
    id: "s_id script = r_scriptId r1" and
    e: "find (\<lambda>v. v_contentHash v = h (sd_content sd1)) (versionsOf st1 (r_scriptId r1)) = Some e"
       "v_id e = r_versionId r1"
    by (elim exE conjE) simp
  from storeScript_known_script[OF m, of h now2 scan2 sd2] e id assms(2) s1
  show ?thesis by simp
qed

lemma storeScript_shares_version:
  fixes h :: "string \<Rightarrow> string"
  assumes "reachable h st" "\<forall>c. length (h c) \<le> n"
  shows "\<exists>c1 c2. c1 \<noteq> c2 \<and>
           r_versionId (fst (storeScript h now2
              (snd (storeScript h now1 st tid scan1 \<lparr>sd_url = u1, sd_content = c1, sd_size = z1\<rparr> ni))
              tid scan2 \<lparr>sd_url = u2, sd_content = c2, sd_size = z2\<rparr> ni)) =
           r_versionId (fst (storeScript h now1 st tid scan1
              \<lparr>sd_url = u1, sd_content = c1, sd_size = z1\<rparr> ni))"
proof -
  from digest_collision[OF assms(2)] obtain c1 c2 where c: "c1 \<noteq> c2" "h c1 = h c2" by blast
  have "r_versionId (fst (storeScript h now2
              (snd (storeScript h now1 st tid scan1 \<lparr>sd_url = u1, sd_content = c1, sd_size = z1\<rparr> ni))
              tid scan2 \<lparr>sd_url = u2, sd_content = c2, sd_size = z2\<rparr> ni)) =
           r_versionId (fst (storeScript h now1 st tid scan1
              \<lparr>sd_url = u1, sd_content = c1, sd_size = z1\<rparr> ni))"
    by (rule storeScript_same_digest[OF assms(1)]) (simp add: c(2))
  with c(1) show ?thesis by blast
qed
section \<open>Properties of the diff statistics\<close>

text \<open>
  Claim C6 against the code: \<open>calculateStats\<close> counts the newline characters of a part.
  A last line that no newline ends is not counted: for \<open>(a\<close> against \<open>(b\<close> (one line
  removed, one added) it reports no addition and no deletion, hence a change of zero
  percent, while \<open>extractChanges\<close> lists the added and the removed line. A blank line is
  counted: an unchanged part made of
  the line \<open>a;\<close> and a blank line has one non-empty line and counts as two.
\<close>

theorem calculateStats_counts_newlines:
  "additions (calculateStats replacedLine ''(a'' ''(b'') = 0 \<and>
   deletions (calculateStats replacedLine ''(a'' ''(b'') = 0 \<and>
   changeNumerator (calculateStats replacedLine ''(a'' ''(b'') = 0 \<and>
   nonEmptyLines True False replacedLine = 1 \<and> nonEmptyLines False True replacedLine = 1 \<and>
   extractChanges replacedLine = ([(1, ''(b'')], [(1, ''(a'')]) \<and>
   unchanged (calculateStats blankLine (''a;'' @ [newline, newline] @ ''b;'' @ [newline])
      (''a;'' @ [newline, newline] @ ''c;'' @ [newline])) = 2 \<and>
   nonEmptyLines False False blankLine = 1"
  by (simp add: calculateStats_def countPart_def extractChanges_def extractPart_def
      replacedLine_def blankLine_def nonEmptyLines_def newline_def Let_def)

section \<open>Properties of the identity normalizer\<close>

subsection \<open>Malformed URLs\<close>

text \<open>
  Claim C5, as the code has it. When the URL does not parse, \<open>normalize\<close> returns (it
  never throws) the raw string as \<open>original\<close>, \<open>normalized\<close>, \<open>identifier\<close>, \<open>pathname\<close> and
  \<open>filename\<close>, and the fixed text \<open>unknown\<close> as \<open>host\<close>.
\<close>

theorem normalize_malformed:
  assumes "parseURL url = None"
  shows "normalize_url parseURL url =
           \<lparr>n_original = url, n_normalized = url, n_identifier = url, n_host = ''unknown'',
            n_pathname = url, n_filename = url\<rparr>"
  using assms by (simp add: normalize_url_def)

theorem normalize_malformed_witness:
  "exampleURL ''not a url'' = None \<and>
   normalize_url exampleURL ''not a url'' =
     \<lparr>n_original = ''not a url'', n_normalized = ''not a url'', n_identifier = ''not a url'',
      n_host = ''unknown'', n_pathname = ''not a url'', n_filename = ''not a url''\<rparr>"
proof -
  have n: "exampleURL ''not a url'' = None" by (simp add: exampleURL_def onSite_def)
  from normalize_malformed[of exampleURL "''not a url''", OF n] n show ?thesis by simp
qed

text \<open>Claim C5 as stated fails on the \<open>host\<close> field, which is not the raw string.\<close>

theorem normalize_malformed_host_counterexample:
  "exampleURL ''not a url'' = None \<and> n_host (normalize_url exampleURL ''not a url'') \<noteq> ''not a url''"
  by (simp add: normalize_url_def exampleURL_def onSite_def)

subsection \<open>Stable identifiers\<close>


lemma run_le_length: "run P s \<le> length s"
  by (simp add: run_def length_takeWhile_le)































lemma boundary_only_plain: "(\<And>p q s. m p s = m q s) \<Longrightarrow> boundary_only m"
  by (simp add: boundary_only_def)








lemma build_tag_not_recognized:
  "recognized_by 7 ''/js/'' ''build123'' ''.js'' \<and> \<not> recognized_by 7 ''/js/'' ''build20240115'' ''.js''"
  by code_simp

text \<open>
  Claim C4 as stated fails: the placeholder \<open>build[n]\<close> of the normalized path is still in
  the identifier.
\<close>

theorem identifier_keeps_placeholder_counterexample:
  "n_pathname (normalize_url exampleURL ''https://a.com/js/build123.js'') = ''/js/build[n].js'' \<and>
   occurs_in ''build[n]'' (n_identifier (normalize_url exampleURL ''https://a.com/js/build123.js''))"
  by code_simp

subsection \<open>From the normalized path to the identifier\<close>

lemma no_adjacent_Cons:
  "no_adjacent ch (x # ys) \<longleftrightarrow> \<not> (x = ch \<and> take 1 ys = [ch]) \<and> no_adjacent ch ys"
  by (cases ys) auto

lemma no_adjacent_drop: "no_adjacent ch s \<Longrightarrow> no_adjacent ch (drop k s)"
proof (induction s arbitrary: k)
  case Nil
  then show ?case by simp
next
  case (Cons x xs)
  then show ?case by (cases k) (auto simp: no_adjacent_Cons)
qed

lemma run_drop_stop: "take 1 (drop (run P s) s) \<noteq> [c] \<or> \<not> P c"
  unfolding run_def by (induction s) auto

lemma run_Cons: "run P (c # cs) = (if P c then Suc (run P cs) else 0)"
  by (simp add: run_def)

lemma m_repeated_Cons:
  "m_repeated ch prev (c # cs) = (if c = ch \<and> 1 \<le> run (\<lambda>x. x = ch) cs
                                 then Some (Suc (Suc (run (\<lambda>x. x = ch) cs - 1))) else None)"
  by (auto simp: m_repeated_def run_Cons)

lemma replace_repeated_Cons:
  "replace_all (m_repeated ch) [ch] prev (c # cs) =
     (if c = ch \<and> 1 \<le> run (\<lambda>x. x = ch) cs
      then ch # replace_all (m_repeated ch) [ch] (Some ch) (drop (run (\<lambda>x. x = ch) cs) cs)
      else c # replace_all (m_repeated ch) [ch] (Some c) cs)"
proof (cases "c = ch \<and> 1 \<le> run (\<lambda>x. x = ch) cs")
  case True
  then have "Suc (run (\<lambda>x. x = ch) cs - 1) = run (\<lambda>x. x = ch) cs" by simp
  moreover have "(c # cs) ! Suc (run (\<lambda>x. x = ch) cs - 1) = ch"
  proof -
    have "run (\<lambda>x. x = ch) cs - 1 < length (takeWhile (\<lambda>x. x = ch) cs)"
      using True by (auto simp: run_def)
    then have "cs ! (run (\<lambda>x. x = ch) cs - 1) = takeWhile (\<lambda>x. x = ch) cs ! (run (\<lambda>x. x = ch) cs - 1)"
      by (simp add: takeWhile_nth)
    also have "\<dots> \<in> set (takeWhile (\<lambda>x. x = ch) cs)"
      using \<open>run (\<lambda>x. x = ch) cs - 1 < length (takeWhile (\<lambda>x. x = ch) cs)\<close> by simp
    finally have "cs ! (run (\<lambda>x. x = ch) cs - 1) = ch" by (auto dest: set_takeWhileD)
    then show ?thesis by simp
  qed
  ultimately show ?thesis using True by (simp add: m_repeated_Cons)
next
  case False
  then show ?thesis by (auto simp: m_repeated_Cons)
qed

lemma replace_repeated_first:
  "take (Suc 0) (replace_all (m_repeated ch) [ch] prev s) = take (Suc 0) s"
  by (cases s) (simp_all add: replace_repeated_Cons del: replace_all.simps(2))

lemma replace_repeated_no_adjacent:
  "no_adjacent ch (replace_all (m_repeated ch) [ch] prev s)"
proof (induction s arbitrary: prev rule: length_induct)
  case (1 s)
  show ?case
  proof (cases s)
    case Nil
    then show ?thesis by simp
  next
    case (Cons c cs)
    let ?n = "run (\<lambda>x. x = ch) cs"
    show ?thesis
    proof (cases "c = ch \<and> 1 \<le> ?n")
      case True
      have "length (drop ?n cs) < length s" using Cons by simp
      from 1[rule_format, OF this, of "Some ch"]
      have "no_adjacent ch (replace_all (m_repeated ch) [ch] (Some ch) (drop ?n cs))" .
      moreover have "take 1 (drop ?n cs) \<noteq> [ch]"
        using run_drop_stop[of "\<lambda>x. x = ch" cs ch] by simp
      ultimately show ?thesis
        using True Cons
        by (simp add: replace_repeated_Cons no_adjacent_Cons replace_repeated_first
            del: replace_all.simps(2))
    next
      case False
      have "length cs < length s" using Cons by simp
      from 1[rule_format, OF this, of "Some c"]
      have ih: "no_adjacent ch (replace_all (m_repeated ch) [ch] (Some c) cs)" .
      have "c = ch \<Longrightarrow> take 1 cs \<noteq> [ch]"
        using False by (cases cs) (auto simp: run_Cons)
      with ih False Cons show ?thesis
        by (auto simp: replace_repeated_Cons no_adjacent_Cons replace_repeated_first
            simp del: replace_all.simps(2))
    qed
  qed
qed

lemma replace_repeated_keeps_no_adjacent:
  assumes "other \<noteq> ch"
  shows "no_adjacent other s \<Longrightarrow> no_adjacent other (replace_all (m_repeated ch) [ch] prev s)"
proof (induction s arbitrary: prev rule: length_induct)
  case (1 s)
  show ?case
  proof (cases s)
    case Nil
    then show ?thesis by simp
  next
    case (Cons c cs)
    let ?n = "run (\<lambda>x. x = ch) cs"
    from 1(2) Cons have tail: "no_adjacent other cs" and
      head: "\<not> (c = other \<and> take 1 cs = [other])" by (simp_all add: no_adjacent_Cons)
    show ?thesis
    proof (cases "c = ch \<and> 1 \<le> ?n")
      case True
      have "length (drop ?n cs) < length s" using Cons by simp
      from 1(1)[rule_format, OF this no_adjacent_drop[OF tail], of "Some ch"] True Cons assms
      show ?thesis by (simp add: replace_repeated_Cons no_adjacent_Cons del: replace_all.simps(2))
    next
      case False
      have "length cs < length s" using Cons by simp
      from 1(1)[rule_format, OF this tail, of "Some c"] False Cons head
      show ?thesis
        by (auto simp: replace_repeated_Cons no_adjacent_Cons replace_repeated_first
            simp del: replace_all.simps(2))
    qed
  qed
qed

lemma replace_literal_remove:
  "lit \<noteq> [] \<Longrightarrow> replace_all (m_literal lit) [] prev s = spec_strip_token lit s"
proof (induction s arbitrary: prev rule: length_induct)
  case (1 s)
  show ?case
  proof (cases s)
    case Nil
    then show ?thesis by simp
  next
    case (Cons c cs)
    from 1(2) obtain n where n: "length lit = Suc n" by (cases lit) auto
    show ?thesis
    proof (cases "take (length lit) (c # cs) = lit")
      case True
      have m: "m_literal lit prev (c # cs) = Some (Suc n)" using True n by (simp add: m_literal_def)
      have "length (drop n cs) < length s" using Cons by simp
      from 1(1)[rule_format, OF this 1(2)] True n Cons 1(2) m
      show ?thesis by simp
    next
      case False
      have m: "m_literal lit prev (c # cs) = None" using False by (simp add: m_literal_def)
      have "length cs < length s" using Cons by simp
      from 1(1)[rule_format, OF this 1(2)] False Cons m
      show ?thesis by simp
    qed
  qed
qed

lemma stripPlaceholders_remove:
  "stripPlaceholders s = spec_strip strippedPlaceholders s"
  by (simp add: stripPlaceholders_def spec_strip_def strippedPlaceholders_def
      replace_literal_remove)

lemma spec_collapse_run:
  "spec_collapse ch (ch # cs) = ch # spec_collapse ch (drop (run (\<lambda>x. x = ch) cs) cs)"
proof (induction cs)
  case Nil
  then show ?case by (simp add: run_def)
next
  case (Cons y r)
  then show ?case by (cases "y = ch") (simp_all add: run_Cons)
qed

lemma spec_collapse_Cons:
  "spec_collapse ch (c # cs) =
     (if c = ch \<and> 1 \<le> run (\<lambda>x. x = ch) cs
      then ch # spec_collapse ch (drop (run (\<lambda>x. x = ch) cs) cs)
      else c # spec_collapse ch cs)"
proof (cases "c = ch")
  case True
  show ?thesis
  proof (cases "1 \<le> run (\<lambda>x. x = ch) cs")
    case True
    with \<open>c = ch\<close> show ?thesis by (simp add: spec_collapse_run)
  next
    case False
    then have "cs = [] \<or> hd cs \<noteq> ch" by (cases cs) (auto simp: run_Cons)
    with False \<open>c = ch\<close> show ?thesis by (cases cs) auto
  qed
next
  case False
  then show ?thesis by (cases cs) auto
qed

lemma collapseRuns_spec_collapse: "collapseRuns ch s = spec_collapse ch s"
proof -
  have "replace_all (m_repeated ch) [ch] prev s = spec_collapse ch s" for prev
  proof (induction s arbitrary: prev rule: length_induct)
    case (1 s)
    show ?case
    proof (cases s)
      case Nil
      then show ?thesis by simp
    next
      case (Cons c cs)
      let ?n = "run (\<lambda>x. x = ch) cs"
      have a: "length (drop ?n cs) < length s" and b: "length cs < length s" using Cons by simp_all
      from 1[rule_format, OF a, of "Some ch"] 1[rule_format, OF b, of "Some c"] Cons
      show ?thesis
        by (simp add: replace_repeated_Cons spec_collapse_Cons del: replace_all.simps(2) spec_collapse.simps)
    qed
  qed
  then show ?thesis by (simp add: collapseRuns_def)
qed


lemma spec_strip_token_skip:
  assumes "CHR ''['' \<notin> set w" "take 1 tok = ''[''"
  shows "spec_strip_token tok (w @ s) = w @ spec_strip_token tok s"
  using assms(1)
proof (induction w)
  case Nil
  then show ?case by simp
next
  case (Cons c w)
  from assms(2) obtain tl where tok: "tok = CHR ''['' # tl" by (cases tok) auto
  from Cons.prems have "c \<noteq> CHR ''[''" by auto
  then have "take (length tok) (c # w @ s) \<noteq> tok" by (simp add: tok)
  with Cons show ?case by simp
qed

lemma bracket_name_eq:
  assumes n: "CHR '']'' \<notin> set n" and k: "CHR '']'' \<notin> set k"
    and eq: "take (Suc (length k)) (n @ CHR '']'' # s) = k @ '']''"
  shows "n = k"
proof -
  have nth: "(n @ CHR '']'' # s) ! i = (k @ '']'') ! i" if "i < Suc (length k)" for i
  proof -
    have "take (Suc (length k)) (n @ CHR '']'' # s) ! i = (n @ CHR '']'' # s) ! i"
      using that by (rule nth_take)
    then show ?thesis unfolding eq by simp
  qed
  have len: "length n = length k"
  proof (rule ccontr)
    assume ne: "length n \<noteq> length k"
    show False
    proof (cases "length n < length k")
      case True
      from nth[of "length n"] True have "k ! length n = CHR '']''" by (simp add: nth_append)
      with True k show False by (metis nth_mem)
    next
      case False
      with ne have gt: "length k < length n" by simp
      from nth[of "length k"] gt have "n ! length k = CHR '']''" by (simp add: nth_append)
      with gt n show False by (metis nth_mem)
    qed
  qed
  from arg_cong[OF eq, of "take (length k)"] len show ?thesis by simp
qed

lemma spec_strip_token_placeholder:
  assumes "plain (Placeholder n)" "plain (Placeholder k)"
  shows "spec_strip_token (render (Placeholder k)) (render (Placeholder n) @ s) =
           (if n = k then spec_strip_token (render (Placeholder k)) s
            else render (Placeholder n) @ spec_strip_token (render (Placeholder k)) s)"
proof (cases "n = k")
  case True
  then show ?thesis by simp
next
  case False
  have "take (Suc (length k)) (n @ CHR '']'' # s) \<noteq> k @ '']''"
    using bracket_name_eq[of n k s] assms False by auto
  moreover have "spec_strip_token (CHR ''['' # k @ '']'') ((n @ '']'') @ s) =
      (n @ '']'') @ spec_strip_token (CHR ''['' # k @ '']'') s"
    by (rule spec_strip_token_skip) (use assms in simp_all)
  ultimately show ?thesis using False by simp
qed

lemma spec_strip_token_pieces:
  assumes "plain (Placeholder k)"
  shows "list_all plain ps \<Longrightarrow>
         spec_strip_token (render (Placeholder k)) (concat (map render ps)) =
           concat (map render (filter (\<lambda>p. p \<noteq> Placeholder k) ps))"
proof (induction ps)
  case Nil
  then show ?case by simp
next
  case (Cons p ps)
  show ?case
  proof (cases p)
    case (Text a)
    with Cons.prems have "CHR ''['' \<notin> set a" by simp
    from spec_strip_token_skip[OF this, of "render (Placeholder k)" "concat (map render ps)"]
      Cons Text show ?thesis by simp
  next
    case (Placeholder n)
    with Cons.prems have "plain (Placeholder n)" by simp
    from spec_strip_token_placeholder[OF this assms, of "concat (map render ps)"] Cons Placeholder
    show ?thesis by (simp del: render.simps plain.simps)
  qed
qed

lemma spec_strip_pieces:
  "list_all plain ps \<Longrightarrow> list_all (\<lambda>k. plain (Placeholder k)) ks \<Longrightarrow>
   spec_strip (map (\<lambda>k. render (Placeholder k)) ks) (concat (map render ps)) =
     concat (map render (filter (\<lambda>p. p \<notin> set (map Placeholder ks)) ps))"
proof (induction ks arbitrary: ps)
  case Nil
  then show ?case by (simp add: spec_strip_def)
next
  case (Cons k ks)
  from Cons.prems have pk: "plain (Placeholder k)" and pks: "list_all (\<lambda>k. plain (Placeholder k)) ks"
    by simp_all
  have pl: "list_all plain (filter (\<lambda>p. p \<noteq> Placeholder k) ps)"
    using Cons.prems(1) by (simp add: list_all_iff)
  have "spec_strip (map (\<lambda>k. render (Placeholder k)) (k # ks)) (concat (map render ps)) =
        spec_strip (map (\<lambda>k. render (Placeholder k)) ks)
          (concat (map render (filter (\<lambda>p. p \<noteq> Placeholder k) ps)))"
    using spec_strip_token_pieces[OF pk Cons.prems(1)] by (simp add: spec_strip_def)
  also have "\<dots> = concat (map render (filter (\<lambda>p. p \<notin> set (map Placeholder ks))
      (filter (\<lambda>p. p \<noteq> Placeholder k) ps)))"
    by (rule Cons.IH[OF pl pks])
  also have "\<dots> = concat (map render (filter (\<lambda>p. p \<notin> set (map Placeholder (k # ks))) ps))"
    by (simp add: conj_commute cong: filter_cong)
  finally show ?case .
qed

lemma strippedPlaceholders_names:
  "strippedPlaceholders = map (\<lambda>k. render (Placeholder k)) strippedNames"
  by (simp add: strippedPlaceholders_def strippedNames_def)

lemma stripPlaceholders_pieces:
  assumes "list_all plain ps"
  shows "stripPlaceholders (concat (map render ps)) = concat (map render (filter kept ps))"
proof -
  have "list_all (\<lambda>k. plain (Placeholder k)) strippedNames" by (simp add: strippedNames_def)
  from spec_strip_pieces[OF assms this] show ?thesis
    by (simp add: stripPlaceholders_remove strippedPlaceholders_names kept_def cong: filter_cong)
qed


lemma spec_collapse_no_adjacent: "no_adjacent ch (spec_collapse ch s)"
  using replace_repeated_no_adjacent[of ch None s]
  by (simp add: collapseRuns_spec_collapse[unfolded collapseRuns_def])

lemma spec_collapse_keeps_no_adjacent:
  "other \<noteq> ch \<Longrightarrow> no_adjacent other s \<Longrightarrow> no_adjacent other (spec_collapse ch s)"
  using replace_repeated_keeps_no_adjacent[of other ch s None]
  by (simp add: collapseRuns_spec_collapse[unfolded collapseRuns_def])

text \<open>
  Claim C4, as the code has it. For a URL that parses, the stable identifier is the
  origin followed by the normalized path after three steps: \<open>[hash]\<close>, \<open>[id]\<close>,
  \<open>[chunk]\<close>, \<open>[timestamp]\<close>, \<open>[uuid]\<close> and \<open>[version]\<close> are deleted, one after the other,
  each wherever it is met in one reading of the string from the left; then every run of
  dashes becomes one dash; then every run of dots becomes one dot.

  When the normalized path is made of plain pieces, the result is the origin followed by
  the kept pieces in their order, runs collapsed: every one of the six placeholders is
  gone, and the text and the placeholders \<open>[n]\<close> (of \<open>build[n]\<close>) and \<open>[name]\<close> (of
  \<open>runtime~[name]\<close>) are all still there. The part after the origin has no two dashes
  and no two dots side by side.
\<close>

theorem identifier_of_valid_url:
  assumes "parseURL url = Some parsed"
  defines "path \<equiv> n_pathname (normalize_url parseURL url)"
  defines "rest \<equiv> spec_collapse CHR ''.'' (spec_collapse CHR ''-'' (spec_strip strippedPlaceholders path))"
  shows "n_identifier (normalize_url parseURL url) = u_origin parsed @ rest \<and>
         (\<forall>ps. list_all plain ps \<and> path = concat (map render ps) \<longrightarrow>
            rest = spec_collapse CHR ''.'' (spec_collapse CHR ''-'' (concat (map render (filter kept ps))))) \<and>
         no_adjacent CHR ''-'' rest \<and> no_adjacent CHR ''.'' rest"
proof (intro conjI allI impI)
  show "n_identifier (normalize_url parseURL url) = u_origin parsed @ rest"
    using assms(1)
    by (simp add: rest_def path_def normalize_url_def createIdentifier_def Let_def
        collapseRuns_spec_collapse stripPlaceholders_remove)
  show "no_adjacent CHR ''.'' rest"
    unfolding rest_def by (rule spec_collapse_no_adjacent)
  show "no_adjacent CHR ''-'' rest"
    unfolding rest_def by (rule spec_collapse_keeps_no_adjacent) (simp, rule spec_collapse_no_adjacent)
  show "rest = spec_collapse CHR ''.'' (spec_collapse CHR ''-'' (concat (map render (filter kept ps))))"
    if "list_all plain ps \<and> path = concat (map render ps)" for ps
    using that stripPlaceholders_pieces[of ps]
    by (simp add: rest_def stripPlaceholders_remove)
qed

theorem identifier_of_valid_url_witness:
  "exampleURL ''https://a.com/main.1a2b3c4d.js'' = Some (snd (onSite ''/main.1a2b3c4d.js'')) \<and>
   list_all plain [Text ''/main.'', Placeholder ''hash'', Text ''.js''] \<and>
   n_pathname (normalize_url exampleURL ''https://a.com/main.1a2b3c4d.js'') =
     concat (map render [Text ''/main.'', Placeholder ''hash'', Text ''.js'']) \<and>
   n_identifier (normalize_url exampleURL ''https://a.com/main.1a2b3c4d.js'') = ''https://a.com/main.js'' \<and>
   exampleURL ''https://a.com/js/build123.js'' = Some (snd (onSite ''/js/build123.js'')) \<and>
   list_all plain [Text ''/js/build'', Placeholder ''n'', Text ''.js''] \<and>
   n_pathname (normalize_url exampleURL ''https://a.com/js/build123.js'') =
     concat (map render [Text ''/js/build'', Placeholder ''n'', Text ''.js'']) \<and>
   n_identifier (normalize_url exampleURL ''https://a.com/js/build123.js'') =
     ''https://a.com/js/build[n].js''"
proof -
  have p1: "exampleURL ''https://a.com/main.1a2b3c4d.js'' = Some (snd (onSite ''/main.1a2b3c4d.js''))"
    and p2: "exampleURL ''https://a.com/js/build123.js'' = Some (snd (onSite ''/js/build123.js''))"
    by (simp_all add: exampleURL_def onSite_def)
  have n1: "n_pathname (normalize_url exampleURL ''https://a.com/main.1a2b3c4d.js'') =
      concat (map render [Text ''/main.'', Placeholder ''hash'', Text ''.js''])"
    and n2: "n_pathname (normalize_url exampleURL ''https://a.com/js/build123.js'') =
      concat (map render [Text ''/js/build'', Placeholder ''n'', Text ''.js''])"
    by code_simp+
  have k: "kept (Text a)" "\<not> kept (Placeholder ''hash'')" "kept (Placeholder ''n'')" for a
    by (simp_all add: kept_def strippedNames_def)
  have pl: "list_all plain [Text ''/main.'', Placeholder ''hash'', Text ''.js'']"
    "list_all plain [Text ''/js/build'', Placeholder ''n'', Text ''.js'']" by simp_all
  note t1 = identifier_of_valid_url[where parseURL = exampleURL
      and url = "''https://a.com/main.1a2b3c4d.js''" and parsed = "snd (onSite ''/main.1a2b3c4d.js'')", OF p1]
  note t2 = identifier_of_valid_url[where parseURL = exampleURL
      and url = "''https://a.com/js/build123.js''" and parsed = "snd (onSite ''/js/build123.js'')", OF p2]
  from t1 have a1: "n_identifier (normalize_url exampleURL ''https://a.com/main.1a2b3c4d.js'') =
      u_origin (snd (onSite ''/main.1a2b3c4d.js'')) @
      spec_collapse CHR ''.'' (spec_collapse CHR ''-'' (concat (map render
        (filter kept [Text ''/main.'', Placeholder ''hash'', Text ''.js'']))))"
    using pl(1) n1 by metis
  from t2 have a2: "n_identifier (normalize_url exampleURL ''https://a.com/js/build123.js'') =
      u_origin (snd (onSite ''/js/build123.js'')) @
      spec_collapse CHR ''.'' (spec_collapse CHR ''-'' (concat (map render
        (filter kept [Text ''/js/build'', Placeholder ''n'', Text ''.js'']))))"
    using pl(2) n2 by metis
  from a1 a2 p1 p2 n1 n2 pl show ?thesis by (simp add: k onSite_def)
qed

text \<open>
  The pieces must be plain. Each placeholder is deleted in one reading, and what a
  deletion joins is not read again: around a hex digest, the text \<open>[has\<close> and \<open>h]\<close> of
  the URL ends up as a \<open>[hash]\<close> in the identifier.
\<close>

lemma identifier_joined_placeholder:
  "n_pathname (normalize_url exampleURL ''https://a.com/[has12345678h]/app.js'') = ''/[has[hash]h]/app.js'' \<and>
   n_identifier (normalize_url exampleURL ''https://a.com/[has12345678h]/app.js'') = ''https://a.com/[hash]/app.js''"
  by code_simp
end
